theory Spec2Isabelle
  imports Complex_Main "HOL-Library.Option_ord"
begin

section \<open>Strings\<close>

text \<open>
  A Python \<open>str\<close> is a sequence of Unicode code points and \<open>len\<close> counts code points.
  A code point is modelled as a natural number and a string as a list of them, so that
  the text of an uploaded file is not restricted to one byte per character.
  \<open>str\<close> turns a literal into such a list.
\<close>

type_synonym pystr = "nat list"

definition str :: "string \<Rightarrow> pystr" where
  "str s = map of_char s"

text \<open>
  \<open>is_space\<close> is the set of code points that \<open>str.strip()\<close> and \<open>str.split()\<close>
  (both called without argument) treat as whitespace.
\<close>

definition is_space :: "nat \<Rightarrow> bool" where
  "is_space c \<longleftrightarrow>
     (9 \<le> c \<and> c \<le> 13) \<or> (28 \<le> c \<and> c \<le> 32) \<or> c = 133 \<or> c = 160 \<or> c = 5760 \<or>
     (8192 \<le> c \<and> c \<le> 8202) \<or> c = 8232 \<or> c = 8233 \<or> c = 8239 \<or> c = 8287 \<or> c = 12288"

definition strip :: "pystr \<Rightarrow> pystr" where
  "strip s = rev (dropWhile is_space (rev (dropWhile is_space s)))"

text \<open>\<open>s.split(sep)\<close> for a separator of one code point: never the empty list.\<close>

fun split_on :: "nat \<Rightarrow> pystr \<Rightarrow> pystr list" where
  "split_on sep [] = [[]]"
| "split_on sep (c # cs) =
     (if c = sep then [] # split_on sep cs
      else (case split_on sep cs of [] \<Rightarrow> [[c]] | p # ps \<Rightarrow> (c # p) # ps))"

text \<open>\<open>s.replace(". ", ".\n")\<close>: left to right, without overlap.\<close>

fun replace_dot_space :: "pystr \<Rightarrow> pystr" where
  "replace_dot_space [] = []"
| "replace_dot_space [c] = [c]"
| "replace_dot_space (c # d # cs) =
     (if c = 46 \<and> d = 32 then 46 # 10 # replace_dot_space cs
      else c # replace_dot_space (d # cs))"

text \<open>
  \<open>s.split()\<close>: the maximal runs of non-whitespace. \<open>words_acc w s\<close> has read the word
  \<open>w\<close> so far.
\<close>

fun words_acc :: "pystr \<Rightarrow> pystr \<Rightarrow> pystr list" where
  "words_acc w [] = (if w = [] then [] else [w])"
| "words_acc w (c # cs) =
     (if is_space c then (if w = [] then words_acc [] cs else w # words_acc [] cs)
      else words_acc (w @ [c]) cs)"

definition split_ws :: "pystr \<Rightarrow> pystr list" where
  "split_ws s = words_acc [] s"

text \<open>\<open>sep.join(ws)\<close>.\<close>

fun join :: "pystr \<Rightarrow> pystr list \<Rightarrow> pystr" where
  "join sep [] = []"
| "join sep [w] = w"
| "join sep (w # v # ws) = w @ sep @ join sep (v # ws)"

text \<open>
  \<open>xs[i:]\<close> for any integer \<open>i\<close>: a negative start counts from the end and is
  clamped at 0, a start beyond the end is clamped at the length. In particular
  \<open>xs[-0:]\<close> is \<open>xs[0:]\<close>, the whole list.
\<close>

definition slice_from :: "int \<Rightarrow> 'a list \<Rightarrow> 'a list" where
  "slice_from i xs =
     (let n = int (length xs);
          j = (if i < 0 then max (n + i) 0 else min i n)
      in drop (nat j) xs)"

section \<open>The chunker (main.py, smart\_chunk)\<close>

text \<open>
  The inner loop of the sentence collection: \<open>for sent in para.replace(...).split("\n")\<close>,
  with \<open>sentences.append(sent)\<close> as the accumulator.
\<close>

fun sent_loop :: "pystr list \<Rightarrow> pystr list \<Rightarrow> pystr list" where
  "sent_loop sentences [] = sentences"
| "sent_loop sentences (sent # rest) =
     (let sent = strip sent
      in if sent \<noteq> [] then sent_loop (sentences @ [sent]) rest
         else sent_loop sentences rest)"

text \<open>The outer loop: \<open>for para in text.split("\n")\<close>.\<close>

fun para_loop :: "pystr list \<Rightarrow> pystr list \<Rightarrow> pystr list" where
  "para_loop sentences [] = sentences"
| "para_loop sentences (para # rest) =
     (let para = strip para
      in if para = [] then para_loop sentences rest
         else para_loop (sent_loop sentences (split_on 10 (replace_dot_space para))) rest)"

text \<open>
  The second loop, \<open>for sent in sentences\<close>, on the state \<open>(chunks, current_chunk)\<close>.
  \<open>chunk_size\<close> and \<open>overlap\<close> are Python integers; \<open>//\<close> is floor division, as
  \<open>div\<close> on \<open>int\<close> is.
\<close>

fun chunk_loop :: "int \<Rightarrow> int \<Rightarrow> pystr list \<times> pystr \<Rightarrow> pystr list \<Rightarrow> pystr list \<times> pystr" where
  "chunk_loop chunk_size overlap (chunks, current_chunk) [] = (chunks, current_chunk)"
| "chunk_loop chunk_size overlap (chunks, current_chunk) (sent # rest) =
     (if int (length current_chunk) + int (length sent) + 1 > chunk_size \<and> current_chunk \<noteq> []
      then
        let words = split_ws current_chunk;
            overlap_words = slice_from (- min (int (length words)) (overlap div 5)) words
        in chunk_loop chunk_size overlap
             (chunks @ [strip current_chunk], join [32] overlap_words @ [32] @ sent) rest
      else chunk_loop chunk_size overlap (chunks, current_chunk @ [32] @ sent) rest)"

definition smart_chunk :: "pystr \<Rightarrow> int \<Rightarrow> int \<Rightarrow> pystr list" where
  "smart_chunk text chunk_size overlap =
     (let sentences = para_loop [] (split_on 10 text);
          (chunks, current_chunk) = chunk_loop chunk_size overlap ([], []) sentences
      in if strip current_chunk \<noteq> [] then chunks @ [strip current_chunk] else chunks)"

section \<open>The chunking algorithm as the specification words it\<close>

text \<open>
  The second definition of the chunker, written from the specification and not from the
  code: paragraphs are the trimmed, non-empty pieces between newlines; in a paragraph
  every occurrence of a period followed by a space ends a sentence (the period stays with
  the sentence, the space goes); sentences are trimmed and the empty ones dropped.
\<close>

fun spec_split_sentences :: "pystr \<Rightarrow> pystr list" where
  "spec_split_sentences [] = [[]]"
| "spec_split_sentences [c] = [[c]]"
| "spec_split_sentences (c # d # cs) =
     (if c = 46 \<and> d = 32 then [46] # spec_split_sentences cs
      else (case spec_split_sentences (d # cs) of [] \<Rightarrow> [[c]] | s # ss \<Rightarrow> (c # s) # ss))"

definition spec_paragraphs :: "pystr \<Rightarrow> pystr list" where
  "spec_paragraphs text = filter (\<lambda>p. p \<noteq> []) (map strip (split_on 10 text))"

definition spec_sentences :: "pystr \<Rightarrow> pystr list" where
  "spec_sentences text =
     filter (\<lambda>s. s \<noteq> []) (map strip (concat (map spec_split_sentences (spec_paragraphs text))))"

text \<open>The last \<open>k\<close> words of a list of words (all of them when there are fewer).\<close>

definition last_words :: "nat \<Rightarrow> pystr list \<Rightarrow> pystr list" where
  "last_words k ws = drop (length ws - k) ws"

text \<open>
  Greedy accumulation. The specification does not say what separates the sentences in
  the buffer; as in the code, every appended sentence is preceded by one space, and a
  chunk is the trimmed buffer. When the buffer with the next sentence appended would be
  longer than \<open>chunkSize\<close> and the buffer is not empty, the buffer is emitted and the next
  buffer is the last \<open>floor (overlap / 5)\<close> words of the emitted chunk, joined by spaces,
  before the new sentence.
\<close>

fun spec_accumulate :: "int \<Rightarrow> int \<Rightarrow> pystr \<Rightarrow> pystr list \<Rightarrow> pystr list" where
  "spec_accumulate chunkSize overlap buffer [] =
     (if strip buffer = [] then [] else [strip buffer])"
| "spec_accumulate chunkSize overlap buffer (s # ss) =
     (if int (length (buffer @ [32] @ s)) > chunkSize \<and> buffer \<noteq> []
      then strip buffer #
           spec_accumulate chunkSize overlap
             (join [32] (last_words (nat (overlap div 5)) (split_ws (strip buffer))) @ [32] @ s) ss
      else spec_accumulate chunkSize overlap (buffer @ [32] @ s) ss)"

definition spec_chunk :: "pystr \<Rightarrow> int \<Rightarrow> int \<Rightarrow> pystr list" where
  "spec_chunk text chunkSize overlap = spec_accumulate chunkSize overlap [] (spec_sentences text)"

section \<open>The generation gateway (rag.py)\<close>

text \<open>
  The language-model service is external. One outbound call
  (\<open>GenerativeModel(model_name)\<close>, \<open>generate_content(prompt)\<close>, \<open>response.text\<close>, all
  inside the same \<open>try\<close>) either yields the text or raises an exception, of which the
  code reads \<open>str(e)\<close>. The service is a function of the models called so far, the
  model name and the prompt, which covers every sequence of outcomes.
\<close>

datatype outcome = Response pystr | Failure pystr

type_synonym genai = "string list \<Rightarrow> string \<Rightarrow> pystr \<Rightarrow> outcome"

record RAGService =
  api_key :: "pystr option"
  GEMINI_MODEL_CHAIN :: "string list"
  has_gemini :: bool
  has_index :: bool \<comment> \<open>\<open>hasattr(self, "index")\<close>\<close>

definition MISSING_KEY_MESSAGE :: pystr where
  "MISSING_KEY_MESSAGE =
     str ''Gemini API Key is missing. Please set GEMINI_API_KEY to enable AI chat.''"

definition EXHAUSTED_MESSAGE :: pystr where
  "EXHAUSTED_MESSAGE =
     [9888, 65039] @ str '' All Gemini models are currently rate-limited. '' @
     str ''Please wait a minute and try again, or check your API quota at '' @
     str ''[ai.google.dev](https://ai.google.dev/gemini-api/docs/rate-limits).''"

text \<open>\<open>sub in s\<close> on strings.\<close>

fun contains :: "pystr \<Rightarrow> pystr \<Rightarrow> bool" where
  "contains sub [] = (sub = [])"
| "contains sub (c # cs) = (take (length sub) (c # cs) = sub \<or> contains sub cs)"

text \<open>
  \<open>str.lower()\<close>, on the letters A to Z. No other code point has a lower-case form that
  contains one of the letters of \<open>quota\<close> or \<open>rate\<close>, and lower-casing deletes nothing,
  so the two substring tests below give what Python gives.
\<close>

definition lower :: "pystr \<Rightarrow> pystr" where
  "lower s = map (\<lambda>c. if 65 \<le> c \<and> c \<le> 90 then c + 32 else c) s"

definition rate_limited :: "pystr \<Rightarrow> bool" where
  "rate_limited err_str \<longleftrightarrow>
     contains (str ''429'') err_str \<or> contains (str ''quota'') (lower err_str) \<or>
     contains (str ''rate'') (lower err_str)"

text \<open>
  \<open>for attempt in range(2)\<close>, with the number of attempts left; \<open>calls\<close> is the log of
  outbound calls. \<open>None\<close> is the loop ending without a \<open>return\<close>, by exhaustion or by
  \<open>break\<close>. The two-second sleep is not modelled.
\<close>

fun attempt_loop :: "genai \<Rightarrow> pystr \<Rightarrow> string \<Rightarrow> nat \<Rightarrow> string list \<Rightarrow> pystr option \<times> string list" where
  "attempt_loop gen prompt model_name 0 calls = (None, calls)"
| "attempt_loop gen prompt model_name (Suc n) calls =
     (case gen calls model_name prompt of
        Response text \<Rightarrow> (Some text, calls @ [model_name])
      | Failure err_str \<Rightarrow>
          if rate_limited err_str
          then attempt_loop gen prompt model_name n (calls @ [model_name])
          else (None, calls @ [model_name]))"

fun model_loop :: "genai \<Rightarrow> pystr \<Rightarrow> string list \<Rightarrow> string list \<Rightarrow> pystr \<times> string list" where
  "model_loop gen prompt [] calls = (EXHAUSTED_MESSAGE, calls)"
| "model_loop gen prompt (model_name # rest) calls =
     (case attempt_loop gen prompt model_name 2 calls of
        (Some text, calls') \<Rightarrow> (text, calls')
      | (None, calls') \<Rightarrow> model_loop gen prompt rest calls')"

definition call_gemini :: "RAGService \<Rightarrow> genai \<Rightarrow> pystr \<Rightarrow> string list \<Rightarrow> pystr \<times> string list" where
  "call_gemini self gen prompt calls =
     (if \<not> has_gemini self then (MISSING_KEY_MESSAGE, calls)
      else model_loop gen prompt (GEMINI_MODEL_CHAIN self) calls)"

text \<open>
  The constructor, as far as the gateway goes: the credential is the environment
  variable \<open>GEMINI_API_KEY\<close> (absent or empty counts as missing), and the index attribute
  is set when \<open>_ensure_index\<close> got hold of the index.
\<close>

definition RAGService_init :: "pystr option \<Rightarrow> bool \<Rightarrow> RAGService" where
  "RAGService_init key index_ok =
     \<lparr>api_key = key,
      GEMINI_MODEL_CHAIN = [''gemini-2.0-flash'', ''gemini-1.5-flash'', ''gemini-1.5-flash-latest'',
                            ''gemini-pro'', ''gemini-pro-latest''],
      has_gemini = (case key of None \<Rightarrow> False | Some k \<Rightarrow> k \<noteq> []),
      has_index = index_ok\<rparr>"

record message =
  role :: pystr
  content :: pystr

fun history_lines :: "message list \<Rightarrow> pystr" where
  "history_lines [] = []"
| "history_lines (msg # rest) =
     (if role msg = str ''user'' then str ''User'' else str ''Assistant'') @ str '': '' @
     content msg @ [10] @ history_lines rest"

definition generate_answer ::
  "RAGService \<Rightarrow> genai \<Rightarrow> pystr \<Rightarrow> pystr list \<Rightarrow> message list \<Rightarrow> string list \<Rightarrow> pystr \<times> string list" where
  "generate_answer self gen query context_chunks history calls =
     (let context_text = (if context_chunks \<noteq> [] then join [10, 10] context_chunks
                          else str ''(no relevant documents found)'');
          history_block = (if history \<noteq> []
                           then str ''Previous conversation:'' @ [10] @ history_lines history @ [10]
                           else []);
          prompt =
            str ''You are Endee Assistant '' @ [8212] @
            str '' a knowledgeable, friendly AI document assistant.'' @ [10] @
            str ''Use the retrieved context below to answer the user'' @ [39] @
            str ''s question accurately.'' @ [10] @
            str ''If the answer is not in the context, say so clearly but remain helpful.'' @ [10] @
            str ''Format your answer in Markdown for readability (use headers, bullet points, bold, etc.).'' @
            [10, 10] @ history_block @ str ''---'' @ [10] @ str ''Retrieved Context:'' @ [10] @
            context_text @ [10, 10] @ str ''---'' @ [10] @ str ''User Question: '' @ query @
            [10, 10] @ str ''Answer (in Markdown):''
      in call_gemini self gen prompt calls)"

definition summarize_text :: "RAGService \<Rightarrow> genai \<Rightarrow> pystr \<Rightarrow> pystr \<Rightarrow> string list \<Rightarrow> pystr \<times> string list" where
  "summarize_text self gen text filename calls =
     (let prompt =
            str ''Summarise the following document in 3-5 bullet points.'' @ [10] @
            str ''Be concise but capture the key information. Format in Markdown.'' @ [10, 10] @
            str ''Document: '' @ filename @ [10, 10] @ str ''Content:'' @ [10] @ text @ [10, 10] @
            str ''Summary (Markdown bullet points):''
      in call_gemini self gen prompt calls)"

section \<open>The application state and its environment (main.py)\<close>

record conversation =
  c_id :: pystr
  title :: pystr
  messages :: "message list"
  created_at :: real
  updated_at :: real

record document =
  filename :: pystr
  chunks :: nat
  size_bytes :: nat
  uploaded_at :: real
  preview :: pystr
  full_text :: pystr

record analytics_entry =
  a_query :: pystr
  a_mode :: pystr
  timestamp :: real
  response_time_ms :: int
  results_count :: nat

text \<open>What \<open>ingest_text\<close> hands to \<open>index.upsert\<close>, and what \<open>index.query\<close> gives back.\<close>

record endee_record =
  rec_id :: pystr
  vector :: "real list"
  rec_meta :: "string \<rightharpoonup> pystr"

record hit =
  hit_id :: "pystr option"
  similarity :: "real option"
  meta :: "(string \<rightharpoonup> pystr) option"

record result =
  r_id :: "pystr option"
  score :: "real option"
  r_content :: pystr
  r_filename :: pystr

record QueryRequest =
  query :: pystr
  top_k :: int
  mode :: pystr
  conversation_id :: "pystr option"

record QueryResponse =
  results :: "result list"
  answer :: "pystr option"
  response_conversation_id :: "pystr option"

record ingest_response =
  ing_filename :: pystr
  ing_status :: pystr
  chunks_processed :: nat
  ing_size_bytes :: nat
  ing_preview :: pystr

text \<open>
  An \<open>HTTPException\<close> with its status code and detail, or an exception that no handler
  of the application catches (the framework answers 500), with \<open>str(e)\<close>.
\<close>

datatype error = HTTPException nat pystr | Unhandled pystr

text \<open>
  Everything outside the two source files. \<open>uuid4 n\<close> is the \<open>n\<close>-th identifier the
  process draws with \<open>str(uuid.uuid4())\<close> and \<open>time n\<close> the \<open>n\<close>-th reading of
  \<open>time.time()\<close>. The embedding model, the vector index and the constructor of the
  service may raise: \<open>Inl msg\<close> is an exception whose \<open>str\<close> is \<open>msg\<close>. \<open>upsert\<close> gets
  the records in the index and the new one; \<open>index_query\<close> the records, the query
  vector and \<open>top_k\<close>.
\<close>

record env =
  uuid4 :: "nat \<Rightarrow> pystr"
  time :: "nat \<Rightarrow> real"
  encode :: "pystr \<Rightarrow> pystr + real list"
  upsert :: "endee_record list \<Rightarrow> endee_record \<Rightarrow> pystr option"
  index_query :: "endee_record list \<Rightarrow> real list \<Rightarrow> int \<Rightarrow> pystr + hit list"
  generate_content :: genai
  GEMINI_API_KEY :: "pystr option"
  init_error :: "pystr option"
  index_ok :: bool

text \<open>
  The three module-level stores and \<open>app.state.rag_service\<close>, together with what the
  process has done to the outside: the records upserted into the vector index (the code
  has no other operation on its contents), the log of outbound model calls, and how many
  identifiers and clock readings it has drawn.
\<close>

record world =
  document_store :: "pystr \<rightharpoonup> document"
  conversation_store :: "pystr \<rightharpoonup> conversation"
  query_analytics :: "analytics_entry list"
  rag_service :: "RAGService option"
  index_records :: "endee_record list"
  gemini_calls :: "string list"
  uuids_drawn :: nat
  clock_reads :: nat

definition now :: "env \<Rightarrow> world \<Rightarrow> real \<times> world" where
  "now e w = (time e (clock_reads w), w\<lparr>clock_reads := Suc (clock_reads w)\<rparr>)"

definition new_uuid :: "env \<Rightarrow> world \<Rightarrow> pystr \<times> world" where
  "new_uuid e w = (uuid4 e (uuids_drawn w), w\<lparr>uuids_drawn := Suc (uuids_drawn w)\<rparr>)"

text \<open>\<open>RAGService()\<close>: raises when the client or the embedding model cannot be set up.\<close>

definition new_service :: "env \<Rightarrow> pystr + RAGService" where
  "new_service e =
     (case init_error e of
        Some msg \<Rightarrow> Inl msg
      | None \<Rightarrow> Inr (RAGService_init (GEMINI_API_KEY e) (index_ok e)))"

text \<open>The state after \<open>lifespan\<close> has started the application.\<close>

definition startup :: "env \<Rightarrow> world" where
  "startup e =
     \<lparr>document_store = Map.empty, conversation_store = Map.empty, query_analytics = [],
      rag_service = (case new_service e of Inl msg \<Rightarrow> None | Inr service \<Rightarrow> Some service),
      index_records = [], gemini_calls = [], uuids_drawn = 0, clock_reads = 0\<rparr>"

definition get_rag_service :: "env \<Rightarrow> world \<Rightarrow> (error + RAGService) \<times> world" where
  "get_rag_service e w =
     (case rag_service w of
        Some service \<Rightarrow> (Inr service, w)
      | None \<Rightarrow>
          (case new_service e of
             Inl msg \<Rightarrow> (Inl (HTTPException 503 (str ''RAG Service unavailable: '' @ msg)), w)
           | Inr service \<Rightarrow> (Inr service, w\<lparr>rag_service := Some service\<rparr>)))"

section \<open>Ingestion (rag.py ingest\_text, main.py ingest\_file)\<close>

definition ingest_text ::
  "env \<Rightarrow> RAGService \<Rightarrow> pystr \<Rightarrow> (string \<rightharpoonup> pystr) option \<Rightarrow> world \<Rightarrow> (pystr + pystr option) \<times> world" where
  "ingest_text e self text meta_arg w =
     (if strip text = [] then (Inr None, w)
      else
        (case encode e text of
           Inl msg \<Rightarrow> (Inl msg, w)
         | Inr vec \<Rightarrow>
             let (doc_id, w1) = new_uuid e w;
                 record = \<lparr>rec_id = doc_id, vector = vec,
                           rec_meta = (case meta_arg of None \<Rightarrow> Map.empty | Some m \<Rightarrow> m)\<rparr>
             in if has_index self
                then (case upsert e (index_records w1) record of
                        Some msg \<Rightarrow> (Inl msg, w1)
                      | None \<Rightarrow> (Inr (Some doc_id), w1\<lparr>index_records := index_records w1 @ [record]\<rparr>))
                else (Inr None, w1)))"

text \<open>
  \<open>for chunk in chunks\<close> of \<open>ingest_file\<close>: the value \<open>ingest_text\<close> returns is dropped and
  \<open>count\<close> goes up after every call that does not raise.
\<close>

fun ingest_loop ::
  "env \<Rightarrow> RAGService \<Rightarrow> pystr \<Rightarrow> pystr list \<Rightarrow> nat \<Rightarrow> world \<Rightarrow> (pystr + nat) \<times> world" where
  "ingest_loop e service fname [] count w = (Inr count, w)"
| "ingest_loop e service fname (chunk # rest) count w =
     (case ingest_text e service chunk (Some [''filename'' \<mapsto> fname, ''content'' \<mapsto> chunk]) w of
        (Inl msg, w1) \<Rightarrow> (Inl msg, w1)
      | (Inr returned, w1) \<Rightarrow> ingest_loop e service fname rest (count + 1) w1)"

text \<open>
  \<open>ingest_file\<close> from the point where the upload has been written and its text
  extracted: \<open>fname\<close> is \<open>file.filename\<close>, \<open>file_size\<close> the size of the upload and
  \<open>text_content\<close> the text read from it (from the PDF pages or the decoded file; both
  readers are outside the source). The temporary file is not modelled.
\<close>

definition ingest_file ::
  "env \<Rightarrow> pystr \<Rightarrow> nat \<Rightarrow> pystr \<Rightarrow> world \<Rightarrow> (error + ingest_response) \<times> world" where
  "ingest_file e fname file_size text_content w =
     (case get_rag_service e w of
        (Inl err, w1) \<Rightarrow> (Inl err, w1)
      | (Inr service, w1) \<Rightarrow>
          if strip text_content = []
          then (Inl (HTTPException 400 (str ''Could not extract any text from the file.'')), w1)
          else
            (case ingest_loop e service fname (smart_chunk text_content 500 100) 0 w1 of
               (Inl msg, w2) \<Rightarrow> (Inl (HTTPException 500 msg), w2)
             | (Inr count, w2) \<Rightarrow>
                 let preview = strip (take 300 text_content);
                     (t, w3) = now e w2;
                     w4 = w3\<lparr>document_store := (document_store w3)(fname \<mapsto>
                            \<lparr>filename = fname, chunks = count, size_bytes = file_size,
                             uploaded_at = t, preview = preview, full_text = text_content\<rparr>)\<rparr>
                 in (Inr \<lparr>ing_filename = fname, ing_status = str ''ingested'',
                          chunks_processed = count, ing_size_bytes = file_size,
                          ing_preview = preview\<rparr>, w4)))"

section \<open>Documents (main.py delete\_document, summarize\_document)\<close>

definition delete_document :: "pystr \<Rightarrow> world \<Rightarrow> (error + pystr \<times> pystr) \<times> world" where
  "delete_document fname w =
     (if document_store w fname \<noteq> None
      then (Inr (str ''deleted'', fname), w\<lparr>document_store := (document_store w)(fname := None)\<rparr>)
      else (Inl (HTTPException 404 (str ''Document not found'')), w))"

definition summarize_document :: "env \<Rightarrow> pystr \<Rightarrow> world \<Rightarrow> (error + pystr \<times> pystr) \<times> world" where
  "summarize_document e fname w =
     (case get_rag_service e w of
        (Inl err, w1) \<Rightarrow> (Inl err, w1)
      | (Inr service, w1) \<Rightarrow>
          (case document_store w1 fname of
             None \<Rightarrow> (Inl (HTTPException 404 (str ''Document not found'')), w1)
           | Some doc \<Rightarrow>
               let truncated = take 3000 (full_text doc);
                   (summary, calls) =
                     summarize_text service (generate_content e) truncated fname (gemini_calls w1)
               in (Inr (fname, summary), w1\<lparr>gemini_calls := calls\<rparr>)))"

section \<open>Search and query (rag.py search, main.py query\_index)\<close>

definition search :: "env \<Rightarrow> RAGService \<Rightarrow> pystr \<Rightarrow> int \<Rightarrow> world \<Rightarrow> pystr + hit list" where
  "search e self q k w =
     (if \<not> has_index self then Inr []
      else (case encode e q of
              Inl msg \<Rightarrow> Inl msg
            | Inr query_vector \<Rightarrow> index_query e (index_records w) query_vector k))"

definition generate_title_from_query :: "pystr \<Rightarrow> pystr" where
  "generate_title_from_query q =
     (let title = take 60 (strip q)
      in if length (strip q) > 60 then title @ [8230] else title)"

definition NO_CONTENT :: pystr where
  "NO_CONTENT = str ''No content available''"

text \<open>\<open>item.get("meta", {}).get(key, dflt)\<close>.\<close>

definition meta_get :: "hit \<Rightarrow> string \<Rightarrow> pystr \<Rightarrow> pystr" where
  "meta_get item key dflt =
     (case meta item of
        None \<Rightarrow> dflt
      | Some m \<Rightarrow> (case m key of None \<Rightarrow> dflt | Some v \<Rightarrow> v))"

text \<open>\<open>for item in results\<close>, on the state \<open>(formatted_results, context_chunks)\<close>.\<close>

fun format_loop :: "hit list \<Rightarrow> result list \<times> pystr list \<Rightarrow> result list \<times> pystr list" where
  "format_loop [] (formatted_results, context_chunks) = (formatted_results, context_chunks)"
| "format_loop (item # rest) (formatted_results, context_chunks) =
     (let content = meta_get item ''content'' NO_CONTENT;
          context_chunks = (if content \<noteq> [] \<and> content \<noteq> NO_CONTENT
                            then context_chunks @ [content] else context_chunks)
      in format_loop rest
           (formatted_results @
              [\<lparr>r_id = hit_id item, score = similarity item, r_content = content,
                r_filename = meta_get item ''filename'' (str ''unknown'')\<rparr>],
            context_chunks))"

text \<open>
  The branch \<open>if query_data.mode == "chat"\<close>. The conversation is the dictionary found
  under the supplied identifier or the one just created; the two \<open>append\<close>s and the
  assignment to \<open>updated_at\<close> change that dictionary in place, which the model writes
  back into the store.
\<close>

definition chat_branch ::
  "env \<Rightarrow> RAGService \<Rightarrow> QueryRequest \<Rightarrow> pystr list \<Rightarrow> world \<Rightarrow> pystr \<times> pystr \<times> world" where
  "chat_branch e service query_data context_chunks w =
     (let supplied = conversation_id query_data;
          history =
            (case supplied of
               None \<Rightarrow> []
             | Some c \<Rightarrow>
                 if c \<noteq> [] then
                   (case conversation_store w c of
                      None \<Rightarrow> []
                    | Some conv \<Rightarrow> slice_from (- 6) (messages conv))
                 else []);
          (answer, calls) =
            generate_answer service (generate_content e) (query query_data) context_chunks history
              (gemini_calls w);
          w1 = w\<lparr>gemini_calls := calls\<rparr>;
          existing = (case supplied of None \<Rightarrow> None
                      | Some c \<Rightarrow> (case conversation_store w1 c of None \<Rightarrow> None
                                   | Some conv \<Rightarrow> Some (c, conv)));
          (conv_id, conv, w2) =
            (case existing of
               Some (c, conv) \<Rightarrow> (c, conv, w1)
             | None \<Rightarrow>
                 let (conv_id, v1) = new_uuid e w1;
                     (created, v2) = now e v1;
                     (updated, v3) = now e v2
                 in (conv_id,
                     \<lparr>c_id = conv_id, title = generate_title_from_query (query query_data),
                      messages = [], created_at = created, updated_at = updated\<rparr>, v3));
          conv = conv\<lparr>messages := messages conv @ [\<lparr>role = str ''user'', content = query query_data\<rparr>]\<rparr>;
          conv = conv\<lparr>messages := messages conv @ [\<lparr>role = str ''assistant'', content = answer\<rparr>]\<rparr>;
          (t, w3) = now e w2;
          conv = conv\<lparr>updated_at := t\<rparr>
      in (answer, conv_id, w3\<lparr>conversation_store := (conversation_store w3)(conv_id \<mapsto> conv)\<rparr>))"

text \<open>\<open>int(x)\<close> on a float: truncation towards zero.\<close>

definition py_int :: "real \<Rightarrow> int" where
  "py_int x = (if 0 \<le> x then \<lfloor>x\<rfloor> else \<lceil>x\<rceil>)"

definition query_index :: "env \<Rightarrow> QueryRequest \<Rightarrow> world \<Rightarrow> (error + QueryResponse) \<times> world" where
  "query_index e query_data w =
     (case get_rag_service e w of
        (Inl err, w1) \<Rightarrow> (Inl err, w1)
      | (Inr service, w1) \<Rightarrow>
          let (start_time, w2) = now e w1
          in (case search e service (query query_data) (top_k query_data) w2 of
                Inl msg \<Rightarrow> (Inl (Unhandled msg), w2)
              | Inr found \<Rightarrow>
                  let (formatted_results, context_chunks) = format_loop found ([], []);
                      (answer, conv_id, w3) =
                        (if mode query_data = str ''chat''
                         then (let (a, c, v) = chat_branch e service query_data context_chunks w2
                               in (Some a, Some c, v))
                         else (None, conversation_id query_data, w2));
                      (t_end, w4) = now e w3;
                      elapsed = py_int ((t_end - start_time) * 1000);
                      (ts, w5) = now e w4;
                      w6 = w5\<lparr>query_analytics := query_analytics w5 @
                             [\<lparr>a_query = query query_data, a_mode = mode query_data,
                               timestamp = ts, response_time_ms = elapsed,
                               results_count = length formatted_results\<rparr>]\<rparr>
                  in (Inr \<lparr>results = formatted_results, answer = answer,
                           response_conversation_id = conv_id\<rparr>, w6)))"

section \<open>Conversations (main.py rename\_conversation, delete\_conversation)\<close>

definition rename_conversation :: "pystr \<Rightarrow> pystr \<Rightarrow> world \<Rightarrow> (error + pystr \<times> pystr \<times> pystr) \<times> world" where
  "rename_conversation conv_id new_title w =
     (case conversation_store w conv_id of
        None \<Rightarrow> (Inl (HTTPException 404 (str ''Conversation not found'')), w)
      | Some conv \<Rightarrow>
          (Inr (str ''renamed'', conv_id, new_title),
           w\<lparr>conversation_store := (conversation_store w)(conv_id \<mapsto> conv\<lparr>title := new_title\<rparr>)\<rparr>))"

definition delete_conversation :: "pystr \<Rightarrow> world \<Rightarrow> (error + pystr \<times> pystr) \<times> world" where
  "delete_conversation conv_id w =
     (if conversation_store w conv_id \<noteq> None
      then (Inr (str ''deleted'', conv_id),
            w\<lparr>conversation_store := (conversation_store w)(conv_id := None)\<rparr>)
      else (Inl (HTTPException 404 (str ''Conversation not found'')), w))"

section \<open>The service as a transition system\<close>

text \<open>
  The requests that change the state; the endpoints that only read it are left out.
  \<open>handle\<close> gives the state a request leaves behind, whatever the response, and
  \<open>reachable e\<close> are the states of a run of the service in the environment \<open>e\<close>.
\<close>

datatype request =
    Ingest pystr nat pystr
  | DeleteDocument pystr
  | Summarize pystr
  | Query QueryRequest
  | Rename pystr pystr
  | DeleteConversation pystr

fun handle :: "env \<Rightarrow> request \<Rightarrow> world \<Rightarrow> world" where
  "handle e (Ingest fname file_size text_content) w = snd (ingest_file e fname file_size text_content w)"
| "handle e (DeleteDocument fname) w = snd (delete_document fname w)"
| "handle e (Summarize fname) w = snd (summarize_document e fname w)"
| "handle e (Query query_data) w = snd (query_index e query_data w)"
| "handle e (Rename conv_id new_title) w = snd (rename_conversation conv_id new_title w)"
| "handle e (DeleteConversation conv_id) w = snd (delete_conversation conv_id w)"

inductive reachable :: "env \<Rightarrow> world \<Rightarrow> bool" for e :: env where
  start: "reachable e (startup e)"
| step: "reachable e w \<Longrightarrow> reachable e (handle e r w)"

section \<open>An example environment\<close>

text \<open>
  A concrete environment, for evaluating the service on examples: identifiers that
  never repeat, a clock that advances by one second per reading, an embedding model and
  a vector index that never fail (the index returns its first \<open>top_k\<close> records, all
  with similarity 1), a model service that answers at once, and a credential.
\<close>

definition demo_env :: env where
  "demo_env =
     \<lparr>uuid4 = (\<lambda>n. str ''id-'' @ replicate n 49),
      time = (\<lambda>n. real n),
      encode = (\<lambda>t. Inr [real (length t)]),
      upsert = (\<lambda>recs r. None),
      index_query = (\<lambda>recs v k. Inr (map (\<lambda>r. \<lparr>hit_id = Some (rec_id r), similarity = Some 1,
                                                  meta = Some (rec_meta r)\<rparr>) (take (nat k) recs))),
      generate_content = (\<lambda>h m p. Response (str ''An answer.'')),
      GEMINI_API_KEY = Some (str ''key''),
      init_error = None,
      index_ok = True\<rparr>"

text \<open>The state after the service has started and one small text file has been ingested.\<close>

definition demo_world :: world where
  "demo_world =
     snd (ingest_file demo_env (str ''notes.txt'') 28 (str ''Hello world. This is a test.'')
            (startup demo_env))"

section \<open>Properties of the string operations\<close>

lemma strip_Nil: "strip [] = []"
  by (simp add: strip_def)

lemma nonspace_in_dropWhile:
  "x \<in> set s \<Longrightarrow> \<not> P x \<Longrightarrow> x \<in> set (dropWhile P s)"
  by (induction s) auto

lemma strip_keeps_nonspace:
  "x \<in> set s \<Longrightarrow> \<not> is_space x \<Longrightarrow> x \<in> set (strip s)"
  by (simp add: strip_def nonspace_in_dropWhile)

lemma set_strip_subset: "set (strip s) \<subseteq> set s"
  unfolding strip_def
  by (metis set_dropWhileD set_rev subsetI)

lemma length_strip_le: "length (strip s) \<le> length s"
  unfolding strip_def
  by (metis length_dropWhile_le length_rev le_trans)

lemma strip_eq_Nil_iff: "strip s = [] \<longleftrightarrow> (\<forall>x\<in>set s. is_space x)"
proof
  assume "strip s = []"
  then show "\<forall>x\<in>set s. is_space x"
    using strip_keeps_nonspace by fastforce
next
  assume "\<forall>x\<in>set s. is_space x"
  then show "strip s = []"
    by (auto simp: strip_def dropWhile_eq_Nil_conv dest: set_dropWhileD)
qed

lemma strip_nonblank_iff: "strip s \<noteq> [] \<longleftrightarrow> (\<exists>x\<in>set s. \<not> is_space x)"
  by (simp add: strip_eq_Nil_iff)

lemma strip_ends:
  assumes "strip s \<noteq> []"
  shows "\<not> is_space (hd (strip s))" and "\<not> is_space (last (strip s))"
proof -
  let ?d = "dropWhile is_space s"
  let ?r = "dropWhile is_space (rev ?d)"
  from assms have r: "?r \<noteq> []" by (simp add: strip_def)
  then have "\<not> is_space (hd ?r)" by (rule hd_dropWhile)
  then show "\<not> is_space (last (strip s))"
    using r by (simp add: strip_def last_rev)
  from r have d: "?d \<noteq> []" by (cases "?d = []") simp_all
  then have hd: "\<not> is_space (hd ?d)" by (rule hd_dropWhile)
  have "rev ?d = takeWhile is_space (rev ?d) @ ?r" by simp
  then have "last (rev ?d) = last ?r" using r by (metis last_appendR)
  then have "hd (rev ?r) = hd ?d" using r d by (simp add: hd_rev last_rev)
  then show "\<not> is_space (hd (strip s))" using hd by (simp add: strip_def)
qed

lemma strip_fixed:
  assumes "s \<noteq> []" "\<not> is_space (hd s)" "\<not> is_space (last s)"
  shows "strip s = s"
proof -
  have "dropWhile is_space s = s" using assms by (cases s) auto
  moreover have "dropWhile is_space (rev s) = rev s"
    using assms by (cases "rev s") (auto simp: last_rev hd_rev)
  ultimately show ?thesis by (simp add: strip_def)
qed

lemma strip_idem: "strip (strip s) = strip s"
proof (cases "strip s = []")
  case True
  then show ?thesis by (simp add: strip_Nil)
next
  case False
  then show ?thesis by (intro strip_fixed strip_ends)
qed


lemma split_on_not_Nil: "split_on sep xs \<noteq> []"
  by (induction xs) (auto split: list.splits)

lemma set_split_on: "p \<in> set (split_on sep xs) \<Longrightarrow> set p \<subseteq> set xs"
proof (induction xs arbitrary: p)
  case Nil
  then show ?case by simp
next
  case (Cons c cs)
  show ?case
  proof (cases "c = sep")
    case True
    with Cons show ?thesis by auto
  next
    case False
    obtain q qs where q: "split_on sep cs = q # qs"
      using split_on_not_Nil by (cases "split_on sep cs") auto
    with False Cons.prems have "p = c # q \<or> p \<in> set qs" by auto
    then show ?thesis
    proof
      assume "p = c # q"
      moreover have "set q \<subseteq> set cs" using Cons.IH [of q] q by simp
      ultimately show ?thesis by auto
    next
      assume "p \<in> set qs"
      then have "set p \<subseteq> set cs" using Cons.IH [of p] q by simp
      then show ?thesis by auto
    qed
  qed
qed

section \<open>Properties of the chunker\<close>

subsection \<open>The sentences\<close>

lemma sent_loop_eq:
  "sent_loop acc xs = acc @ filter (\<lambda>s. s \<noteq> []) (map strip xs)"
  by (induction xs arbitrary: acc) (auto simp: Let_def)

lemma para_loop_eq:
  "para_loop acc ps =
     acc @ concat (map (\<lambda>p. if strip p = [] then []
                             else filter (\<lambda>s. s \<noteq> [])
                                    (map strip (split_on 10 (replace_dot_space (strip p))))) ps)"
  by (induction ps arbitrary: acc) (auto simp: Let_def sent_loop_eq)

lemma para_loop_sentences:
  assumes "s \<in> set (para_loop [] ps)"
  shows "s \<noteq> []" and "strip s = s"
proof -
  from assms obtain t where "s = strip t" "s \<noteq> []"
    by (auto simp: para_loop_eq split: if_splits)
  then show "s \<noteq> []" and "strip s = s" by (simp_all add: strip_idem)
qed

lemma para_loop_blank:
  assumes "\<forall>p\<in>set ps. strip p = []"
  shows "para_loop acc ps = acc"
  using assms by (induction ps arbitrary: acc) (auto simp: Let_def)

subsection \<open>No chunk is blank\<close>

lemma chunk_loop_inv:
  assumes "\<forall>s\<in>set ss. strip s \<noteq> []"
    and "\<forall>c\<in>set emitted. (\<exists>t. c = strip t) \<and> c \<noteq> []"
    and "cur = [] \<or> strip cur \<noteq> []"
    and "chunk_loop cs ov (emitted, cur) ss = (emitted', cur')"
  shows "(\<forall>c\<in>set emitted'. (\<exists>t. c = strip t) \<and> c \<noteq> []) \<and> (cur' = [] \<or> strip cur' \<noteq> [])"
  using assms
proof (induction ss arbitrary: emitted cur)
  case Nil
  then show ?case by simp
next
  case (Cons s ss)
  from Cons.prems(1) have s: "\<exists>x\<in>set s. \<not> is_space x" and ss: "\<forall>s\<in>set ss. strip s \<noteq> []"
    by (simp_all add: strip_nonblank_iff)
  show ?case
  proof (cases "int (length cur) + int (length s) + 1 > cs \<and> cur \<noteq> []")
    case True
    let ?next = "join [32] (slice_from (- min (int (length (split_ws cur))) (ov div 5)) (split_ws cur)) @ [32] @ s"
    from True Cons.prems(3) have "strip cur \<noteq> []" by simp
    then have a: "\<forall>c\<in>set (emitted @ [strip cur]). (\<exists>t. c = strip t) \<and> c \<noteq> []"
      using Cons.prems(2) by auto
    have b: "?next = [] \<or> strip ?next \<noteq> []"
      using s by (auto simp: strip_nonblank_iff)
    from True Cons.prems(4)
    have "chunk_loop cs ov (emitted @ [strip cur], ?next) ss = (emitted', cur')"
      by (simp add: Let_def)
    from Cons.IH [OF ss a b this] show ?thesis .
  next
    case False
    have b: "cur @ [32] @ s = [] \<or> strip (cur @ [32] @ s) \<noteq> []"
      using s by (auto simp: strip_nonblank_iff)
    from False Cons.prems(4)
    have "chunk_loop cs ov (emitted, cur @ [32] @ s) ss = (emitted', cur')"
      by auto
    from Cons.IH [OF ss Cons.prems(2) b this] show ?thesis .
  qed
qed

lemma smart_chunk_members:
  assumes "c \<in> set (smart_chunk text cs ov)"
  shows "strip c \<noteq> []" and "strip c = c"
proof -
  obtain emitted cur where loop:
    "chunk_loop cs ov ([], []) (para_loop [] (split_on 10 text)) = (emitted, cur)"
    by (cases "chunk_loop cs ov ([], []) (para_loop [] (split_on 10 text))")
  have "\<forall>s\<in>set (para_loop [] (split_on 10 text)). strip s \<noteq> []"
    using para_loop_sentences by metis
  from chunk_loop_inv [OF this _ _ loop]
  have inv: "\<forall>c\<in>set emitted. (\<exists>t. c = strip t) \<and> c \<noteq> []" by simp
  from assms loop have "c \<in> set emitted \<or> (strip cur \<noteq> [] \<and> c = strip cur)"
    by (auto simp: smart_chunk_def split: if_splits)
  then have "(\<exists>t. c = strip t) \<and> c \<noteq> []"
    using inv by auto
  then show "strip c \<noteq> []" and "strip c = c" by (auto simp: strip_idem)
qed

lemma smart_chunk_blank:
  assumes "\<forall>x\<in>set text. is_space x"
  shows "smart_chunk text cs ov = []"
proof -
  have "\<forall>p\<in>set (split_on 10 text). strip p = []"
    using assms set_split_on by (fastforce simp: strip_eq_Nil_iff)
  then have "para_loop [] (split_on 10 text) = []" by (rule para_loop_blank)
  then show ?thesis by (simp add: smart_chunk_def strip_Nil)
qed

text \<open>
  Claim C3. For every input text, chunk size and overlap, every chunk that
  \<open>smart_chunk\<close> returns is non-empty, is non-empty after trimming and is not made of
  whitespace only; and an input that is empty or made of whitespace only gives no chunk
  at all.
\<close>

theorem chunks_never_blank:
  "(\<forall>c\<in>set (smart_chunk text chunk_size overlap).
      c \<noteq> [] \<and> strip c \<noteq> [] \<and> \<not> (\<forall>x\<in>set c. is_space x)) \<and>
   ((\<forall>x\<in>set text. is_space x) \<longrightarrow> smart_chunk text chunk_size overlap = [])"
proof (intro conjI ballI impI)
  fix c assume c: "c \<in> set (smart_chunk text chunk_size overlap)"
  from smart_chunk_members [OF c] show "strip c \<noteq> []" by simp
  then show "c \<noteq> []" by (auto simp: strip_Nil)
  from \<open>strip c \<noteq> []\<close> show "\<not> (\<forall>x\<in>set c. is_space x)" by (simp add: strip_nonblank_iff)
next
  assume "\<forall>x\<in>set text. is_space x"
  then show "smart_chunk text chunk_size overlap = []" by (rule smart_chunk_blank)
qed


theorem chunks_never_blank_witness:
  "str ''Hello world. This is a test.'' \<in> set (smart_chunk (str ''Hello world. This is a test.'') 500 100) \<and>
   strip (str ''Hello world. This is a test.'') \<noteq> [] \<and>
   smart_chunk (str ''  '') 500 100 = []"
proof -
  have mem: "str ''Hello world. This is a test.''
      \<in> set (smart_chunk (str ''Hello world. This is a test.'') 500 100)"
    by (simp add: smart_chunk_def str_def strip_def is_space_def)
  have blank: "\<forall>x\<in>set (str ''  ''). is_space x"
    by (simp add: str_def is_space_def)
  from chunks_never_blank [of "str ''Hello world. This is a test.''" 500 100] mem
  have a: "strip (str ''Hello world. This is a test.'') \<noteq> []" by blast
  from chunks_never_blank [of "str ''  ''" 500 100] blank
  have b: "smart_chunk (str ''  '') 500 100 = []" by blast
  from mem a b show ?thesis by (intro conjI)
qed

subsection \<open>A text shorter than the chunk size\<close>

lemma split_on_total_length:
  "sum_list (map (\<lambda>p. Suc (length p)) (split_on sep xs)) = Suc (length xs)"
proof (induction xs)
  case Nil
  then show ?case by simp
next
  case (Cons c cs)
  obtain q qs where q: "split_on sep cs = q # qs"
    using split_on_not_Nil by (cases "split_on sep cs") auto
  with Cons show ?case by auto
qed

lemma split_on_covers:
  "x \<in> set xs \<Longrightarrow> x \<noteq> sep \<Longrightarrow> \<exists>p\<in>set (split_on sep xs). x \<in> set p"
proof (induction xs)
  case Nil
  then show ?case by simp
next
  case (Cons c cs)
  obtain q qs where q: "split_on sep cs = q # qs"
    using split_on_not_Nil by (cases "split_on sep cs") auto
  show ?case
  proof (cases "x = c")
    case True
    with Cons.prems q show ?thesis by simp
  next
    case False
    with Cons obtain p where "p \<in> set (split_on sep cs)" "x \<in> set p" by auto
    with q show ?thesis by (cases "c = sep") auto
  qed
qed

lemma length_replace_dot_space: "length (replace_dot_space s) = length s"
  by (induction s rule: replace_dot_space.induct) auto

lemma replace_dot_space_keeps:
  "x \<in> set s \<Longrightarrow> x \<noteq> 32 \<Longrightarrow> x \<in> set (replace_dot_space s)"
  by (induction s rule: replace_dot_space.induct) (auto split: if_splits)

lemma stripped_total_length:
  "sum_list (map (\<lambda>s. Suc (length s)) (filter P (map strip xs)))
     \<le> sum_list (map (\<lambda>s. Suc (length s)) xs)"
proof (induction xs)
  case Nil
  then show ?case by simp
next
  case (Cons x xs)
  have "length (strip x) \<le> length x" by (rule length_strip_le)
  with Cons show ?case by auto
qed

lemma para_sentences_length:
  "sum_list (map (\<lambda>s. Suc (length s))
      (if strip p = [] then []
       else filter (\<lambda>s. s \<noteq> []) (map strip (split_on 10 (replace_dot_space (strip p))))))
     \<le> Suc (length p)"
proof (cases "strip p = []")
  case True
  then show ?thesis by simp
next
  case False
  have "sum_list (map (\<lambda>s. Suc (length s))
          (filter (\<lambda>s. s \<noteq> []) (map strip (split_on 10 (replace_dot_space (strip p))))))
        \<le> sum_list (map (\<lambda>s. Suc (length s)) (split_on 10 (replace_dot_space (strip p))))"
    by (rule stripped_total_length)
  also have "\<dots> = Suc (length (strip p))"
    by (simp add: split_on_total_length length_replace_dot_space)
  also have "\<dots> \<le> Suc (length p)"
    using length_strip_le [of p] by simp
  finally show ?thesis using False by simp
qed

lemma para_loop_total_length:
  "sum_list (map (\<lambda>s. Suc (length s)) (para_loop [] ps))
     \<le> sum_list (map (\<lambda>p. Suc (length p)) ps)"
proof (induction ps)
  case Nil
  then show ?case by simp
next
  case (Cons p ps)
  have eq: "para_loop [] (p # ps) =
      (if strip p = [] then []
       else filter (\<lambda>s. s \<noteq> []) (map strip (split_on 10 (replace_dot_space (strip p)))))
      @ para_loop [] ps"
    by (simp add: para_loop_eq)
  show ?case
    unfolding eq using para_sentences_length [of p] Cons.IH
    by (simp del: split_on.simps)
qed

lemma sentences_total_length:
  "sum_list (map (\<lambda>s. Suc (length s)) (para_loop [] (split_on 10 text))) \<le> Suc (length text)"
  using para_loop_total_length [of "split_on 10 text"]
  by (simp add: split_on_total_length)

lemma sentences_exist:
  assumes "x \<in> set text" and "\<not> is_space x"
  shows "para_loop [] (split_on 10 text) \<noteq> []"
proof -
  have sp: "is_space 10" "is_space 32" by (simp_all add: is_space_def)
  with assms have ne: "x \<noteq> 10" "x \<noteq> 32" by auto
  from split_on_covers [OF assms(1) ne(1)]
  obtain p where p: "p \<in> set (split_on 10 text)" "x \<in> set p" by auto
  then have xp: "x \<in> set (strip p)" using assms(2) by (simp add: strip_keeps_nonspace)
  then have nb: "strip p \<noteq> []" by auto
  from xp ne(2) have "x \<in> set (replace_dot_space (strip p))"
    by (rule replace_dot_space_keeps)
  from split_on_covers [OF this ne(1)]
  obtain q where q: "q \<in> set (split_on 10 (replace_dot_space (strip p)))" "x \<in> set q"
    by auto
  then have "x \<in> set (strip q)" using assms(2) by (simp add: strip_keeps_nonspace)
  then have "strip q \<noteq> []" by auto
  with q(1) have "strip q \<in> set (filter (\<lambda>s. s \<noteq> [])
      (map strip (split_on 10 (replace_dot_space (strip p)))))"
    by auto
  with p(1) nb have "strip q \<in> set (para_loop [] (split_on 10 text))"
    unfolding para_loop_eq by (auto simp del: split_on.simps)
  then show ?thesis by auto
qed

lemma chunk_loop_fits:
  assumes "int (length cur) + int (sum_list (map (\<lambda>s. Suc (length s)) ss)) \<le> cs"
  shows "chunk_loop cs ov (emitted, cur) ss = (emitted, cur @ concat (map (\<lambda>s. 32 # s) ss))"
  using assms
proof (induction ss arbitrary: cur)
  case Nil
  then show ?case by simp
next
  case (Cons s ss)
  from Cons.prems have fits: "\<not> int (length cur) + int (length s) + 1 > cs" by simp
  from Cons.prems
  have "int (length (cur @ [32] @ s)) + int (sum_list (map (\<lambda>s. Suc (length s)) ss)) \<le> cs"
    by simp
  from Cons.IH [OF this] fits show ?case by simp
qed

text \<open>
  Claim C4, as stated, fails: a text of one space is not empty and is shorter than the
  chunk size, and \<open>smart_chunk\<close> returns no chunk for it.
\<close>

theorem nonempty_text_one_chunk_counterexample:
  "str '' '' \<noteq> [] \<and> int (length (str '' '')) < 500 \<and>
   length (smart_chunk (str '' '') 500 100) \<noteq> 1"
  by (simp add: smart_chunk_def str_def strip_def is_space_def)

text \<open>
  Claim C4, amended. For every input text that has a character other than whitespace
  and whose length is strictly less than the chunk size, \<open>smart_chunk\<close> returns exactly
  one chunk, whatever the overlap.
\<close>

theorem small_text_one_chunk:
  assumes "\<exists>x\<in>set text. \<not> is_space x"
    and "int (length text) < chunk_size"
  shows "length (smart_chunk text chunk_size overlap) = 1"
proof -
  let ?ss = "para_loop [] (split_on 10 text)"
  from assms(1) have ne: "?ss \<noteq> []" using sentences_exist by blast
  have "int (sum_list (map (\<lambda>s. Suc (length s)) ?ss)) \<le> int (Suc (length text))"
    using sentences_total_length [of "text"] by (simp only: of_nat_le_iff)
  with assms(2)
  have "int (length ([]::pystr)) + int (sum_list (map (\<lambda>s. Suc (length s)) ?ss)) \<le> chunk_size"
    by simp
  from chunk_loop_fits [OF this]
  have loop: "chunk_loop chunk_size overlap ([], []) ?ss = ([], concat (map (\<lambda>s. 32 # s) ?ss))"
    by simp
  obtain s where s: "s \<in> set ?ss" using ne by (cases ?ss) auto
  then have "strip s \<noteq> []" using para_loop_sentences by metis
  then obtain x where "x \<in> set s" "\<not> is_space x" by (auto simp: strip_nonblank_iff)
  with s have "strip (concat (map (\<lambda>s. 32 # s) ?ss)) \<noteq> []"
    unfolding strip_nonblank_iff by auto
  with loop show ?thesis by (simp add: smart_chunk_def)
qed


theorem small_text_one_chunk_witness:
  "(\<exists>x\<in>set (str ''Hello world. This is a test.''). \<not> is_space x) \<and>
   int (length (str ''Hello world. This is a test.'')) < 500 \<and>
   length (smart_chunk (str ''Hello world. This is a test.'') 500 100) = 1"
proof -
  have a: "\<exists>x\<in>set (str ''Hello world. This is a test.''). \<not> is_space x"
    by (simp add: str_def is_space_def)
  have b: "int (length (str ''Hello world. This is a test.'')) < 500"
    by (simp add: str_def)
  from a b small_text_one_chunk [OF a b, of 100] show ?thesis by (intro conjI)
qed

subsection \<open>The code against the algorithm of the specification\<close>

lemma split_on_no_sep: "p \<in> set (split_on sep xs) \<Longrightarrow> sep \<notin> set p"
proof (induction xs arbitrary: p)
  case Nil
  then show ?case by simp
next
  case (Cons c cs)
  obtain q qs where q: "split_on sep cs = q # qs"
    using split_on_not_Nil by (cases "split_on sep cs") auto
  have "sep \<notin> set q" using Cons.IH [of q] q by simp
  moreover have "\<forall>r\<in>set qs. sep \<notin> set r" using Cons.IH q by simp
  ultimately show ?case using Cons.prems q by (cases "c = sep") auto
qed

lemma split_replace_is_spec:
  "10 \<notin> set p \<Longrightarrow> split_on 10 (replace_dot_space p) = spec_split_sentences p"
  by (induction p rule: spec_split_sentences.induct) auto

lemma sentences_are_spec:
  assumes "\<forall>p\<in>set ps. 10 \<notin> set p"
  shows "para_loop [] ps =
     filter (\<lambda>s. s \<noteq> [])
       (map strip (concat (map spec_split_sentences (filter (\<lambda>p. p \<noteq> []) (map strip ps)))))"
  using assms
proof (induction ps)
  case Nil
  then show ?case by simp
next
  case (Cons p ps)
  have "10 \<notin> set (strip p)" using Cons.prems set_strip_subset [of p] by auto
  then have sp: "split_on 10 (replace_dot_space (strip p)) = spec_split_sentences (strip p)"
    by (rule split_replace_is_spec)
  have "para_loop [] (p # ps) =
      (if strip p = [] then []
       else filter (\<lambda>s. s \<noteq> []) (map strip (split_on 10 (replace_dot_space (strip p)))))
      @ para_loop [] ps"
    by (simp add: para_loop_eq)
  with sp Cons show ?case by simp
qed

lemma smart_sentences_are_spec: "para_loop [] (split_on 10 text) = spec_sentences text"
  unfolding spec_sentences_def spec_paragraphs_def
  by (rule sentences_are_spec) (simp add: split_on_no_sep)

lemma words_acc_leading:
  "words_acc [] (dropWhile is_space s) = words_acc [] s"
  by (induction s) auto

lemma words_acc_trailing:
  "\<forall>x\<in>set t. is_space x \<Longrightarrow> words_acc w (s @ t) = words_acc w s"
proof (induction s arbitrary: w)
  case Nil
  then show ?case by (induction t arbitrary: w) auto
next
  case (Cons c s)
  then show ?case by simp
qed

lemma split_ws_strip: "split_ws (strip s) = split_ws s"
proof -
  let ?d = "dropWhile is_space s"
  have "?d = rev (rev ?d)" by simp
  also have "\<dots> = rev (takeWhile is_space (rev ?d) @ dropWhile is_space (rev ?d))"
    by (simp only: takeWhile_dropWhile_id)
  also have "\<dots> = rev (dropWhile is_space (rev ?d)) @ rev (takeWhile is_space (rev ?d))"
    by (rule rev_append)
  finally have d: "?d = strip s @ rev (takeWhile is_space (rev ?d))"
    by (simp only: strip_def)
  have "\<forall>x\<in>set (rev (takeWhile is_space (rev ?d))). is_space x"
    by (auto dest: set_takeWhileD)
  then have "words_acc [] (strip s @ rev (takeWhile is_space (rev ?d))) = words_acc [] (strip s)"
    by (rule words_acc_trailing)
  with d have "words_acc [] ?d = words_acc [] (strip s)" by simp
  then show ?thesis by (simp add: split_ws_def words_acc_leading)
qed

lemma slice_is_last_words:
  assumes "1 \<le> k"
  shows "slice_from (- min (int (length ws)) k) ws = last_words (nat k) ws"
proof (cases "ws = []")
  case True
  then show ?thesis by (simp add: slice_from_def last_words_def)
next
  case False
  then have "0 < length ws" by simp
  with assms have neg: "- min (int (length ws)) k < 0" by simp
  have "nat (max (int (length ws) + - min (int (length ws)) k) 0) = length ws - nat k"
    using assms by (cases "int (length ws) \<le> k") (simp_all add: nat_diff_distrib' nat_le_iff)
  with neg show ?thesis by (simp add: slice_from_def last_words_def Let_def)
qed

lemma chunk_loop_is_spec:
  assumes "5 \<le> ov"
    and "chunk_loop cs ov (emitted, cur) ss = (emitted', cur')"
  shows "emitted' @ (if strip cur' \<noteq> [] then [strip cur'] else [])
           = emitted @ spec_accumulate cs ov cur ss"
  using assms(2)
proof (induction ss arbitrary: emitted cur)
  case Nil
  then show ?case by auto
next
  case (Cons s ss)
  from assms(1) have k: "1 \<le> ov div 5" by simp
  show ?case
  proof (cases "int (length cur) + int (length s) + 1 > cs \<and> cur \<noteq> []")
    case True
    let ?next = "join [32] (last_words (nat (ov div 5)) (split_ws cur)) @ [32] @ s"
    from True Cons.prems
    have "chunk_loop cs ov (emitted @ [strip cur], ?next) ss = (emitted', cur')"
      by (simp add: Let_def slice_is_last_words [OF k])
    from Cons.IH [OF this] True show ?thesis
      by (simp add: split_ws_strip)
  next
    case False
    with Cons.prems
    have "chunk_loop cs ov (emitted, cur @ [32] @ s) ss = (emitted', cur')"
      by auto
    from Cons.IH [OF this] False show ?thesis by auto
  qed
qed

lemma smart_chunk_refines_spec:
  assumes "5 \<le> overlap"
  shows "smart_chunk text chunk_size overlap = spec_chunk text chunk_size overlap"
proof -
  obtain emitted cur where loop:
    "chunk_loop chunk_size overlap ([], []) (spec_sentences text) = (emitted, cur)"
    by (cases "chunk_loop chunk_size overlap ([], []) (spec_sentences text)")
  from chunk_loop_is_spec [OF assms loop] loop show ?thesis
    by (auto simp: smart_chunk_def spec_chunk_def smart_sentences_are_spec split: if_splits)
qed

text \<open>A text of one sentence comes back whole as the only chunk, whatever its length.\<close>

lemma single_sentence_whole:
  assumes "para_loop [] (split_on 10 text) = [s]"
  shows "smart_chunk text chunk_size overlap = [s]"
proof -
  have "s \<in> set (para_loop [] (split_on 10 text))" using assms by simp
  then have s: "s \<noteq> []" "strip s = s" by (rule para_loop_sentences)+
  then have "\<not> is_space (hd s)" using strip_ends(1) [of s] by simp
  then have "strip (32 # s) = s"
    using s by (cases s) (simp_all add: strip_def is_space_def)
  with s assms show ?thesis by (simp add: smart_chunk_def)
qed

text \<open>
  Claim C2. The code follows the algorithm of the specification whenever
  \<open>floor (overlap / 5)\<close> is at least one (see \<open>smart_chunk_refines_spec\<close>); it does not
  when \<open>overlap\<close> is between 0 and 4. There \<open>overlap // 5\<close> is 0, the slice
  \<open>words[-0:]\<close> is the whole list of words, and the next buffer starts with all the
  words of the emitted chunk where the specification takes none of them.
\<close>

theorem smart_chunk_overlap_zero:
  "smart_chunk (str ''aa bb. cc'') 5 0 = [str ''aa bb.'', str ''aa bb. cc''] \<and>
   spec_chunk (str ''aa bb. cc'') 5 0 = [str ''aa bb.'', str ''cc'']"
  by (simp add: smart_chunk_def spec_chunk_def spec_sentences_def spec_paragraphs_def
      str_def strip_def is_space_def split_ws_def slice_from_def last_words_def)


section \<open>Properties of the generation gateway\<close>

lemma attempt_loop_result:
  assumes "attempt_loop gen prompt m n calls = (r, calls')"
  shows "(\<exists>k\<le>n. calls' = calls @ replicate k m) \<and>
         (\<forall>t. r = Some t \<longrightarrow> (\<exists>h. gen h m prompt = Response t))"
  using assms
proof (induction n arbitrary: calls)
  case 0
  then show ?case by simp
next
  case (Suc n)
  show ?case
  proof (cases "gen calls m prompt")
    case (Response t)
    with Suc.prems have "r = Some t" "calls' = calls @ replicate 1 m" by simp_all
    with Response show ?thesis by (metis le_add1 option.inject plus_1_eq_Suc)
  next
    case (Failure err)
    show ?thesis
    proof (cases "rate_limited err")
      case True
      with Failure Suc.prems have "attempt_loop gen prompt m n (calls @ [m]) = (r, calls')"
        by simp
      from Suc.IH [OF this] obtain k where k: "k \<le> n" "calls' = (calls @ [m]) @ replicate k m"
        and r: "\<forall>t. r = Some t \<longrightarrow> (\<exists>h. gen h m prompt = Response t)"
        by blast
      from k have "Suc k \<le> Suc n" "calls' = calls @ replicate (Suc k) m" by simp_all
      with r show ?thesis by blast
    next
      case False
      with Failure Suc.prems have "r = None" "calls' = calls @ replicate 1 m" by simp_all
      then show ?thesis by (metis le_add1 option.distinct(1) plus_1_eq_Suc)
    qed
  qed
qed

lemma model_loop_result:
  assumes "model_loop gen prompt ms calls = (t, calls')"
  shows "(\<exists>more. calls' = calls @ more \<and> set more \<subseteq> set ms) \<and>
         (t = EXHAUSTED_MESSAGE \<or> (\<exists>h m. m \<in> set ms \<and> gen h m prompt = Response t))"
  using assms
proof (induction ms arbitrary: calls)
  case Nil
  then show ?case by simp
next
  case (Cons m ms)
  obtain r c1 where a: "attempt_loop gen prompt m 2 calls = (r, c1)"
    by (cases "attempt_loop gen prompt m 2 calls")
  from attempt_loop_result [OF a] obtain k where k: "c1 = calls @ replicate k m"
    and r: "\<forall>t. r = Some t \<longrightarrow> (\<exists>h. gen h m prompt = Response t)"
    by blast
  show ?case
  proof (cases r)
    case None
    with a Cons.prems have "model_loop gen prompt ms c1 = (t, calls')" by simp
    from Cons.IH [OF this] obtain more where more: "calls' = c1 @ more" "set more \<subseteq> set ms"
      and t: "t = EXHAUSTED_MESSAGE \<or> (\<exists>h m. m \<in> set ms \<and> gen h m prompt = Response t)"
      by blast
    from more k have "calls' = calls @ (replicate k m @ more)"
      "set (replicate k m @ more) \<subseteq> set (m # ms)" by auto
    with t show ?thesis by (metis list.set_intros(2))
  next
    case (Some u)
    with a Cons.prems have "t = u" "calls' = c1" by simp_all
    with k r Some have "calls' = calls @ replicate k m" "set (replicate k m) \<subseteq> set (m # ms)"
      "\<exists>h. gen h m prompt = Response t" by auto
    then show ?thesis by (metis list.set_intros(1))
  qed
qed

text \<open>
  Claim C5. \<open>_call_gemini\<close> never raises: for every service, prompt and behaviour of
  the model service it returns a string, which is the missing-credential message, the
  exhausted message or the text of a response of a model of the chain, and it only adds
  calls to models of the chain to the log of outbound calls. A service constructed
  without credential (the key absent or empty) returns the missing-credential message
  and leaves the log of outbound calls as it was, through \<open>generate_answer\<close> and
  \<open>summarize_text\<close> as well.
\<close>

theorem generation_never_raises:
  "(\<exists>t more. call_gemini self gen prompt calls = (t, calls @ more) \<and>
       set more \<subseteq> set (GEMINI_MODEL_CHAIN self) \<and>
       (t = MISSING_KEY_MESSAGE \<or> t = EXHAUSTED_MESSAGE \<or>
        (\<exists>h m. m \<in> set (GEMINI_MODEL_CHAIN self) \<and> gen h m prompt = Response t))) \<and>
   call_gemini (RAGService_init None ix) gen prompt calls = (MISSING_KEY_MESSAGE, calls) \<and>
   call_gemini (RAGService_init (Some []) ix) gen prompt calls = (MISSING_KEY_MESSAGE, calls) \<and>
   generate_answer (RAGService_init None ix) gen q ctx hist calls = (MISSING_KEY_MESSAGE, calls) \<and>
   summarize_text (RAGService_init None ix) gen txt fname calls = (MISSING_KEY_MESSAGE, calls)"
proof (intro conjI)
  show "\<exists>t more. call_gemini self gen prompt calls = (t, calls @ more) \<and>
       set more \<subseteq> set (GEMINI_MODEL_CHAIN self) \<and>
       (t = MISSING_KEY_MESSAGE \<or> t = EXHAUSTED_MESSAGE \<or>
        (\<exists>h m. m \<in> set (GEMINI_MODEL_CHAIN self) \<and> gen h m prompt = Response t))"
  proof (cases "has_gemini self")
    case False
    then have "call_gemini self gen prompt calls = (MISSING_KEY_MESSAGE, calls @ [])"
      by (simp add: call_gemini_def)
    then show ?thesis by (metis empty_set empty_subsetI)
  next
    case True
    obtain t calls' where m: "model_loop gen prompt (GEMINI_MODEL_CHAIN self) calls = (t, calls')"
      by (cases "model_loop gen prompt (GEMINI_MODEL_CHAIN self) calls")
    from model_loop_result [OF m] True m show ?thesis
      by (auto simp: call_gemini_def)
  qed
qed (simp_all add: call_gemini_def RAGService_init_def generate_answer_def summarize_text_def Let_def)

lemma other_failure_next_model:
  assumes "gen calls m prompt = Failure err" and "\<not> rate_limited err"
  shows "model_loop gen prompt (m # rest) calls = model_loop gen prompt rest (calls @ [m])"
  using assms by (simp add: numeral_2_eq_2)

lemma rate_limit_second_attempt:
  assumes "gen calls m prompt = Failure err" and "rate_limited err"
  shows "model_loop gen prompt (m # rest) calls =
     (case gen (calls @ [m]) m prompt of
        Response t \<Rightarrow> (t, calls @ [m, m])
      | Failure err2 \<Rightarrow> model_loop gen prompt rest (calls @ [m, m]))"
  using assms by (simp add: numeral_2_eq_2 split: outcome.splits)

lemma first_success_returns:
  assumes "gen calls m prompt = Response t"
  shows "model_loop gen prompt (m # rest) calls = (t, calls @ [m])"
  using assms by (simp add: numeral_2_eq_2)

lemma all_rate_limited:
  assumes "\<forall>h m. \<exists>err. gen h m prompt = Failure err \<and> rate_limited err"
  shows "model_loop gen prompt ms calls = (EXHAUSTED_MESSAGE, calls @ concat (map (\<lambda>m. [m, m]) ms))"
proof (induction ms arbitrary: calls)
  case Nil
  then show ?case by simp
next
  case (Cons m ms)
  from assms obtain e1 where e1: "gen calls m prompt = Failure e1" "rate_limited e1" by blast
  from assms obtain e2 where e2: "gen (calls @ [m]) m prompt = Failure e2" by blast
  have "model_loop gen prompt (m # ms) calls =
     (case gen (calls @ [m]) m prompt of
        Response t \<Rightarrow> (t, calls @ [m, m])
      | Failure err2 \<Rightarrow> model_loop gen prompt ms (calls @ [m, m]))"
    using e1 by (rule rate_limit_second_attempt)
  with e2 Cons.IH [of "calls @ [m, m]"] show ?case by simp
qed


text \<open>
  Claim C6. A failure that is not rate-limit-shaped ends the attempts on its model after
  that one call, and the next model is tried. A rate-limit-shaped failure is followed by
  a second attempt on the same model, and by no third: after the second failure, of
  either kind, the next model is tried. When every attempt fails rate-limit-shaped,
  each model of the chain is called exactly twice and the exhausted message is
  returned: ten calls for a chain of five models, which is the length of the chain a
  constructed service has.
\<close>

theorem fallback_chain_attempts:
  "(gen calls m prompt = Failure err \<longrightarrow> \<not> rate_limited err \<longrightarrow>
      model_loop gen prompt (m # rest) calls = model_loop gen prompt rest (calls @ [m])) \<and>
   (gen calls m prompt = Failure err \<longrightarrow> rate_limited err \<longrightarrow>
      model_loop gen prompt (m # rest) calls =
        (case gen (calls @ [m]) m prompt of
           Response t \<Rightarrow> (t, calls @ [m, m])
         | Failure err2 \<Rightarrow> model_loop gen prompt rest (calls @ [m, m]))) \<and>
   ((\<forall>h m. \<exists>err. gen h m prompt = Failure err \<and> rate_limited err) \<longrightarrow> has_gemini self \<longrightarrow>
      call_gemini self gen prompt calls =
        (EXHAUSTED_MESSAGE, calls @ concat (map (\<lambda>m. [m, m]) (GEMINI_MODEL_CHAIN self))) \<and>
      (length (GEMINI_MODEL_CHAIN self) = 5 \<longrightarrow>
         length (snd (call_gemini self gen prompt calls)) = length calls + 10)) \<and>
   length (GEMINI_MODEL_CHAIN (RAGService_init key ix)) = 5"
proof (intro conjI impI)
  assume "gen calls m prompt = Failure err" and "\<not> rate_limited err"
  then show "model_loop gen prompt (m # rest) calls = model_loop gen prompt rest (calls @ [m])"
    by (rule other_failure_next_model)
next
  assume "gen calls m prompt = Failure err" and "rate_limited err"
  then show "model_loop gen prompt (m # rest) calls =
        (case gen (calls @ [m]) m prompt of
           Response t \<Rightarrow> (t, calls @ [m, m])
         | Failure err2 \<Rightarrow> model_loop gen prompt rest (calls @ [m, m]))"
    by (rule rate_limit_second_attempt)
next
  assume all: "\<forall>h m. \<exists>err. gen h m prompt = Failure err \<and> rate_limited err"
    and key: "has_gemini self"
  from all_rate_limited [of gen prompt "GEMINI_MODEL_CHAIN self" calls] all key
  show run: "call_gemini self gen prompt calls =
        (EXHAUSTED_MESSAGE, calls @ concat (map (\<lambda>m. [m, m]) (GEMINI_MODEL_CHAIN self)))"
    by (simp add: call_gemini_def)
  assume "length (GEMINI_MODEL_CHAIN self) = 5"
  then show "length (snd (call_gemini self gen prompt calls)) = length calls + 10"
    unfolding run by (simp add: length_concat comp_def sum_list_triv)
next
  show "length (GEMINI_MODEL_CHAIN (RAGService_init key ix)) = 5"
    by (simp add: RAGService_init_def)
qed

theorem fallback_chain_attempts_witness:
  "call_gemini (RAGService_init (Some (str ''k'')) True)
       (\<lambda>h m p. Failure (str ''429 Too Many Requests'')) (str ''hi'') [] =
     (EXHAUSTED_MESSAGE,
      [''gemini-2.0-flash'', ''gemini-2.0-flash'', ''gemini-1.5-flash'', ''gemini-1.5-flash'',
       ''gemini-1.5-flash-latest'', ''gemini-1.5-flash-latest'', ''gemini-pro'', ''gemini-pro'',
       ''gemini-pro-latest'', ''gemini-pro-latest'']) \<and>
   length (snd (call_gemini (RAGService_init (Some (str ''k'')) True)
       (\<lambda>h m p. Failure (str ''429 Too Many Requests'')) (str ''hi'') [])) = 10 \<and>
   model_loop (\<lambda>h m p. Failure (str ''Invalid argument'')) (str ''hi'') [''gemini-pro''] [] =
     (EXHAUSTED_MESSAGE, [''gemini-pro''])"
proof -
  let ?self = "RAGService_init (Some (str ''k'')) True"
  let ?gen = "\<lambda>(h::string list) (m::string) (p::pystr). Failure (str ''429 Too Many Requests'')"
  let ?bad = "\<lambda>(h::string list) (m::string) (p::pystr). Failure (str ''Invalid argument'')"
  have rl: "rate_limited (str ''429 Too Many Requests'')"
    by (simp add: rate_limited_def str_def)
  have nrl: "\<not> rate_limited (str ''Invalid argument'')"
    by (simp add: rate_limited_def str_def lower_def)
  have all: "\<forall>h m. \<exists>err. ?gen h m (str ''hi'') = Failure err \<and> rate_limited err"
    using rl by simp
  have key: "has_gemini ?self" by (simp add: RAGService_init_def str_def)
  have five: "length (GEMINI_MODEL_CHAIN ?self) = 5" by (simp add: RAGService_init_def)
  note inst = fallback_chain_attempts [of ?gen "[]" "''gemini-pro''" "str ''hi''"
      "str ''429 Too Many Requests''" "[]" ?self]
  from inst all key
  have a: "call_gemini ?self ?gen (str ''hi'') [] =
      (EXHAUSTED_MESSAGE, [] @ concat (map (\<lambda>m. [m, m]) (GEMINI_MODEL_CHAIN ?self)))"
    by blast
  from inst all key five
  have b: "length (snd (call_gemini ?self ?gen (str ''hi'') [])) = length ([]::string list) + 10"
    by blast
  from fallback_chain_attempts [of ?bad "[]" "''gemini-pro''" "str ''hi''"
      "str ''Invalid argument''" "[]"] nrl
  have c: "model_loop ?bad (str ''hi'') (''gemini-pro'' # []) [] =
      model_loop ?bad (str ''hi'') [] ([] @ [''gemini-pro''])"
    by blast
  from a have a': "call_gemini ?self ?gen (str ''hi'') [] =
     (EXHAUSTED_MESSAGE,
      [''gemini-2.0-flash'', ''gemini-2.0-flash'', ''gemini-1.5-flash'', ''gemini-1.5-flash'',
       ''gemini-1.5-flash-latest'', ''gemini-1.5-flash-latest'', ''gemini-pro'', ''gemini-pro'',
       ''gemini-pro-latest'', ''gemini-pro-latest''])"
    by (simp add: RAGService_init_def)
  from b have b': "length (snd (call_gemini ?self ?gen (str ''hi'') [])) = 10" by simp
  from c have c': "model_loop ?bad (str ''hi'') [''gemini-pro''] [] =
     (EXHAUSTED_MESSAGE, [''gemini-pro''])" by simp
  from a' b' c' show ?thesis by (intro conjI)
qed

section \<open>Properties of the query endpoint\<close>

lemma get_rag_service_frame:
  assumes "get_rag_service e w = (r, w1)"
  shows "document_store w1 = document_store w" "conversation_store w1 = conversation_store w"
    "query_analytics w1 = query_analytics w" "index_records w1 = index_records w"
    "gemini_calls w1 = gemini_calls w" "uuids_drawn w1 = uuids_drawn w"
    "clock_reads w1 = clock_reads w"
  using assms by (auto simp: get_rag_service_def split: option.splits sum.splits)

lemma get_rag_service_keeps:
  assumes "get_rag_service e w = (Inr service, w1)"
  shows "rag_service w1 = Some service"
  using assms by (auto simp: get_rag_service_def split: option.splits sum.splits)

lemma chat_branch_effect:
  assumes "chat_branch e service qd ctx w = (a, cid, w')"
  shows "document_store w' = document_store w" "index_records w' = index_records w"
    "query_analytics w' = query_analytics w" "rag_service w' = rag_service w"
    "\<forall>c. c \<noteq> cid \<longrightarrow> conversation_store w' c = conversation_store w c"
    "(\<exists>conv. conversation_id qd = Some cid \<and> conversation_store w cid = Some conv \<and>
        uuids_drawn w' = uuids_drawn w \<and>
        map_option messages (conversation_store w' cid) =
          Some (messages conv @ [\<lparr>role = str ''user'', content = query qd\<rparr>,
                                 \<lparr>role = str ''assistant'', content = a\<rparr>])) \<or>
     ((case conversation_id qd of None \<Rightarrow> None | Some c \<Rightarrow> conversation_store w c) = None \<and>
        cid = uuid4 e (uuids_drawn w) \<and> uuids_drawn w' = Suc (uuids_drawn w) \<and>
        map_option messages (conversation_store w' cid) =
          Some [\<lparr>role = str ''user'', content = query qd\<rparr>,
                \<lparr>role = str ''assistant'', content = a\<rparr>])"
  using assms
  by (auto simp: chat_branch_def Let_def new_uuid_def now_def split_def
      split: option.splits if_splits)


lemma query_index_not_chat:
  assumes "query_index e qd w = (Inr resp, w')" and "mode qd \<noteq> str ''chat''"
  shows "answer resp = None" "response_conversation_id resp = conversation_id qd"
    "conversation_store w' = conversation_store w" "document_store w' = document_store w"
    "index_records w' = index_records w" "gemini_calls w' = gemini_calls w"
    "uuids_drawn w' = uuids_drawn w"
    "\<exists>service w1 found. get_rag_service e w = (Inr service, w1) \<and>
        search e service (query qd) (top_k qd) (snd (now e w1)) = Inr found \<and>
        results resp = fst (format_loop found ([], []))"
proof -
  obtain r w1 where g: "get_rag_service e w = (r, w1)" by (cases "get_rag_service e w")
  with assms(1) obtain service where r: "r = Inr service"
    by (cases r) (auto simp: query_index_def)
  let ?w2 = "snd (now e w1)"
  from assms(1) g r obtain found where f: "search e service (query qd) (top_k qd) ?w2 = Inr found"
    by (cases "search e service (query qd) (top_k qd) ?w2")
       (auto simp: query_index_def split_def Let_def)
  from assms g r f have resp: "resp = \<lparr>results = fst (format_loop found ([], [])), answer = None,
       response_conversation_id = conversation_id qd\<rparr>"
    and w': "conversation_store w' = conversation_store w1" "document_store w' = document_store w1"
      "index_records w' = index_records w1" "gemini_calls w' = gemini_calls w1"
      "uuids_drawn w' = uuids_drawn w1"
    by (auto simp: query_index_def split_def Let_def now_def)
  from resp show "answer resp = None" "response_conversation_id resp = conversation_id qd"
    by simp_all
  from w' get_rag_service_frame [OF g]
  show "conversation_store w' = conversation_store w" "document_store w' = document_store w"
    "index_records w' = index_records w" "gemini_calls w' = gemini_calls w"
    "uuids_drawn w' = uuids_drawn w"
    by simp_all
  from g r f resp
  show "\<exists>service w1 found. get_rag_service e w = (Inr service, w1) \<and>
        search e service (query qd) (top_k qd) (snd (now e w1)) = Inr found \<and>
        results resp = fst (format_loop found ([], []))"
    by auto
qed

lemma query_index_chat:
  assumes "query_index e qd w = (Inr resp, w')" and "mode qd = str ''chat''"
  shows "\<exists>service ctx w2 a cid w3.
      chat_branch e service qd ctx w2 = (a, cid, w3) \<and>
      conversation_store w2 = conversation_store w \<and> uuids_drawn w2 = uuids_drawn w \<and>
      document_store w2 = document_store w \<and> index_records w2 = index_records w \<and>
      answer resp = Some a \<and> response_conversation_id resp = Some cid \<and>
      conversation_store w' = conversation_store w3 \<and> uuids_drawn w' = uuids_drawn w3 \<and>
      document_store w' = document_store w3 \<and> index_records w' = index_records w3"
proof -
  obtain r w1 where g: "get_rag_service e w = (r, w1)" by (cases "get_rag_service e w")
  with assms(1) obtain service where r: "r = Inr service"
    by (cases r) (auto simp: query_index_def)
  let ?w2 = "snd (now e w1)"
  from assms(1) g r obtain found where f: "search e service (query qd) (top_k qd) ?w2 = Inr found"
    by (cases "search e service (query qd) (top_k qd) ?w2")
       (auto simp: query_index_def split_def Let_def)
  let ?ctx = "snd (format_loop found ([], []))"
  obtain a cid w3 where c: "chat_branch e service qd ?ctx ?w2 = (a, cid, w3)"
    by (cases "chat_branch e service qd ?ctx ?w2") auto
  from assms g r f c have "answer resp = Some a" "response_conversation_id resp = Some cid"
    "conversation_store w' = conversation_store w3" "uuids_drawn w' = uuids_drawn w3"
    "document_store w' = document_store w3" "index_records w' = index_records w3"
    by (auto simp: query_index_def split_def Let_def now_def)
  moreover from get_rag_service_frame [OF g]
  have "conversation_store ?w2 = conversation_store w" "uuids_drawn ?w2 = uuids_drawn w"
    "document_store ?w2 = document_store w" "index_records ?w2 = index_records w"
    by (simp_all add: now_def)
  ultimately show ?thesis using c by blast
qed

lemma query_index_error:
  assumes "query_index e qd w = (Inl err, w')"
  shows "conversation_store w' = conversation_store w" "uuids_drawn w' = uuids_drawn w"
    "document_store w' = document_store w" "index_records w' = index_records w"
proof -
  obtain r w1 where g: "get_rag_service e w = (r, w1)" by (cases "get_rag_service e w")
  have "conversation_store w' = conversation_store w1 \<and> uuids_drawn w' = uuids_drawn w1 \<and>
    document_store w' = document_store w1 \<and> index_records w' = index_records w1"
    using assms g
    by (cases r; cases "search e (projr r) (query qd) (top_k qd) (snd (now e w1))")
       (auto simp: query_index_def split_def Let_def now_def)
  with get_rag_service_frame [OF g]
  show "conversation_store w' = conversation_store w" "uuids_drawn w' = uuids_drawn w"
    "document_store w' = document_store w" "index_records w' = index_records w"
    by simp_all
qed


lemma format_loop_results:
  "fst (format_loop found (acc, ctx)) =
     acc @ map (\<lambda>item. \<lparr>r_id = hit_id item, score = similarity item,
                          r_content = meta_get item ''content'' NO_CONTENT,
                          r_filename = meta_get item ''filename'' (str ''unknown'')\<rparr>) found"
  by (induction found arbitrary: acc ctx) (simp_all add: Let_def)

lemma format_loop_scores:
  "map score (fst (format_loop found ([], []))) = map similarity found"
  by (simp add: format_loop_results comp_def)

lemma format_loop_sorted:
  "sorted_wrt (\<lambda>a b. score b \<le> score a) (fst (format_loop found ([], []))) =
   sorted_wrt (\<lambda>a b. similarity b \<le> similarity a) found"
  by (simp add: format_loop_results sorted_wrt_map)

text \<open>
  Claim C8, amended. For every \<open>/query\<close> call that returns a response and whose mode is
  not \<open>chat\<close>: the answer is null, the conversation store is unchanged, the returned
  conversation identifier is null when none was supplied, and, when \<open>top_k\<close> is not
  negative and the vector index keeps its contract (at most \<open>top_k\<close> hits, by descending
  similarity), the results are at most \<open>top_k\<close> and sorted by descending score.
\<close>

theorem search_mode_response:
  assumes "query_index e qd w = (Inr resp, w')" and "mode qd \<noteq> str ''chat''"
  shows "answer resp = None \<and> conversation_store w' = conversation_store w \<and>
    (conversation_id qd = None \<longrightarrow> response_conversation_id resp = None) \<and>
    (0 \<le> top_k qd \<longrightarrow>
     (\<forall>recs v hits. index_query e recs v (top_k qd) = Inr hits \<longrightarrow>
        int (length hits) \<le> top_k qd \<and> sorted_wrt (\<lambda>a b. similarity b \<le> similarity a) hits) \<longrightarrow>
     int (length (results resp)) \<le> top_k qd \<and>
     sorted_wrt (\<lambda>a b. score b \<le> score a) (results resp))"
proof (intro conjI impI)
  note facts = query_index_not_chat [OF assms]
  show "answer resp = None" by (rule facts)
  show "conversation_store w' = conversation_store w" by (rule facts)
  show "response_conversation_id resp = None" if "conversation_id qd = None"
    using facts(2) that by simp
  from facts(8) obtain service w1 found
    where s: "search e service (query qd) (top_k qd) (snd (now e w1)) = Inr found"
      and r: "results resp = fst (format_loop found ([], []))"
    by blast
  assume k: "0 \<le> top_k qd"
    and contract: "\<forall>recs v hits. index_query e recs v (top_k qd) = Inr hits \<longrightarrow>
        int (length hits) \<le> top_k qd \<and> sorted_wrt (\<lambda>a b. similarity b \<le> similarity a) hits"
  have "int (length found) \<le> top_k qd \<and> sorted_wrt (\<lambda>a b. similarity b \<le> similarity a) found"
  proof (cases "has_index service")
    case False
    with s have "found = []" by (simp add: search_def)
    with k show ?thesis by simp
  next
    case True
    with s obtain recs v where "index_query e recs v (top_k qd) = Inr found"
      by (auto simp: search_def split: sum.splits)
    with contract show ?thesis by blast
  qed
  with r show "int (length (results resp)) \<le> top_k qd"
    and "sorted_wrt (\<lambda>a b. score b \<le> score a) (results resp)"
    by (simp_all add: format_loop_sorted) (simp add: format_loop_results)
qed

text \<open>
  Claim C10. For every \<open>/query\<close> call that returns a response, whose mode is not \<open>chat\<close>
  and that supplies a conversation identifier, the response carries that identifier
  unchanged and the conversation store is unchanged: when no conversation has that
  identifier, none has it afterwards.
\<close>

theorem search_mode_echoes_id:
  assumes "query_index e qd w = (Inr resp, w')" and "mode qd \<noteq> str ''chat''"
    and "conversation_id qd = Some c"
  shows "response_conversation_id resp = Some c \<and>
    conversation_store w' = conversation_store w \<and>
    (conversation_store w c = None \<longrightarrow> conversation_store w' c = None)"
  using query_index_not_chat(2,3) [OF assms(1,2)] assms(3) by simp


lemmas demo_eval =
  demo_world_def demo_env_def startup_def new_service_def RAGService_init_def
  get_rag_service_def ingest_file_def ingest_text_def smart_chunk_def new_uuid_def now_def
  query_index_def search_def meta_get_def NO_CONTENT_def py_int_def
  str_def strip_def is_space_def Let_def

lemma demo_world_index:
  "index_records demo_world =
     [\<lparr>rec_id = str ''id-'', vector = [28],
       rec_meta = [''filename'' \<mapsto> str ''notes.txt'',
                   ''content'' \<mapsto> str ''Hello world. This is a test.'']\<rparr>]"
  by (simp add: demo_eval)

lemma demo_world_service:
  "rag_service demo_world = Some (RAGService_init (Some (str ''key'')) True)"
  by (simp add: demo_eval)

lemma demo_world_conversations: "conversation_store demo_world = Map.empty"
  by (simp add: demo_eval)

lemma demo_index_contract:
  "\<forall>recs v hits. index_query demo_env recs v 5 = Inr hits \<longrightarrow>
     int (length hits) \<le> 5 \<and> sorted_wrt (\<lambda>a b. similarity b \<le> similarity a) hits"
  by (auto simp: demo_env_def sorted_wrt_map)

theorem search_mode_response_witness:
  "fst (query_index demo_env
          \<lparr>query = str ''what is X'', top_k = 5, mode = str ''search'', conversation_id = None\<rparr>
          demo_world) =
     Inr \<lparr>results = [\<lparr>r_id = Some (str ''id-''), score = Some 1,
                       r_content = str ''Hello world. This is a test.'',
                       r_filename = str ''notes.txt''\<rparr>],
          answer = None, response_conversation_id = None\<rparr> \<and>
   conversation_store (snd (query_index demo_env
          \<lparr>query = str ''what is X'', top_k = 5, mode = str ''search'', conversation_id = None\<rparr>
          demo_world)) = conversation_store demo_world \<and>
   int (length [\<lparr>r_id = Some (str ''id-''), score = Some (1::real),
                  r_content = str ''Hello world. This is a test.'',
                  r_filename = str ''notes.txt''\<rparr>]) \<le> 5"
proof -
  let ?qd = "\<lparr>query = str ''what is X'', top_k = 5, mode = str ''search'', conversation_id = None\<rparr>"
  let ?resp = "\<lparr>results = [\<lparr>r_id = Some (str ''id-''), score = Some (1::real),
                       r_content = str ''Hello world. This is a test.'',
                       r_filename = str ''notes.txt''\<rparr>],
          answer = None, response_conversation_id = None\<rparr>"
  have run: "fst (query_index demo_env ?qd demo_world) = Inr ?resp"
    by (simp add: demo_eval)
  then have full: "query_index demo_env ?qd demo_world =
      (Inr ?resp, snd (query_index demo_env ?qd demo_world))"
    by (metis prod.collapse)
  have m: "mode ?qd \<noteq> str ''chat''" by (simp add: str_def)
  have k: "0 \<le> top_k ?qd" by simp
  have c: "\<forall>recs v hits. index_query demo_env recs v (top_k ?qd) = Inr hits \<longrightarrow>
     int (length hits) \<le> top_k ?qd \<and> sorted_wrt (\<lambda>a b. similarity b \<le> similarity a) hits"
    using demo_index_contract by simp
  from search_mode_response [OF full m] k c
  have "conversation_store (snd (query_index demo_env ?qd demo_world)) = conversation_store demo_world"
    and "int (length (results ?resp)) \<le> top_k ?qd"
    by blast+
  with run show ?thesis by simp
qed

text \<open>
  Claim C8, as stated, fails on the length of the results: with the index absent the
  search returns the empty list whatever \<open>top_k\<close> is, and 0 is not at most a negative
  \<open>top_k\<close>.
\<close>

theorem search_mode_length_counterexample:
  "fst (query_index (demo_env\<lparr>index_ok := False\<rparr>)
          \<lparr>query = str ''what is X'', top_k = - 1, mode = str ''search'', conversation_id = None\<rparr>
          (startup (demo_env\<lparr>index_ok := False\<rparr>))) =
     Inr \<lparr>results = [], answer = None, response_conversation_id = None\<rparr> \<and>
   str ''search'' \<noteq> str ''chat'' \<and>
   \<not> int (length ([]::result list)) \<le> - 1"
  by (simp add: demo_eval)

theorem search_mode_echoes_id_witness:
  "fst (query_index demo_env
          \<lparr>query = str ''what is X'', top_k = 5, mode = str ''search'',
           conversation_id = Some (str ''no-such-conversation'')\<rparr> demo_world) =
     Inr \<lparr>results = [\<lparr>r_id = Some (str ''id-''), score = Some 1,
                       r_content = str ''Hello world. This is a test.'',
                       r_filename = str ''notes.txt''\<rparr>],
          answer = None, response_conversation_id = Some (str ''no-such-conversation'')\<rparr> \<and>
   conversation_store demo_world (str ''no-such-conversation'') = None \<and>
   conversation_store (snd (query_index demo_env
          \<lparr>query = str ''what is X'', top_k = 5, mode = str ''search'',
           conversation_id = Some (str ''no-such-conversation'')\<rparr> demo_world))
     (str ''no-such-conversation'') = None"
proof -
  let ?qd = "\<lparr>query = str ''what is X'', top_k = 5, mode = str ''search'',
           conversation_id = Some (str ''no-such-conversation'')\<rparr>"
  let ?resp = "\<lparr>results = [\<lparr>r_id = Some (str ''id-''), score = Some (1::real),
                       r_content = str ''Hello world. This is a test.'',
                       r_filename = str ''notes.txt''\<rparr>],
          answer = None, response_conversation_id = Some (str ''no-such-conversation'')\<rparr>"
  have run: "fst (query_index demo_env ?qd demo_world) = Inr ?resp"
    by (simp add: demo_eval)
  then have full: "query_index demo_env ?qd demo_world =
      (Inr ?resp, snd (query_index demo_env ?qd demo_world))"
    by (metis prod.collapse)
  have m: "mode ?qd \<noteq> str ''chat''" by (simp add: str_def)
  have i: "conversation_id ?qd = Some (str ''no-such-conversation'')" by simp
  have n: "conversation_store demo_world (str ''no-such-conversation'') = None"
    by (simp add: demo_world_conversations)
  from search_mode_echoes_id [OF full m i] n
  have "conversation_store (snd (query_index demo_env ?qd demo_world))
      (str ''no-such-conversation'') = None"
    by blast
  with run n show ?thesis by (intro conjI)
qed


section \<open>Properties of the document endpoints\<close>

text \<open>
  Claim C9. \<open>DELETE /documents/{filename}\<close> removes the entry of that file name from the
  document store and nothing else: an unknown file name gives the 404 error
  \<open>Document not found\<close> and leaves the state as it was, the entries of all other file
  names are unchanged, and the records of the vector index are unchanged, so the vectors
  of the deleted document stay in the index.
\<close>

theorem delete_document_metadata_only:
  "(document_store w fname \<noteq> None \<longrightarrow>
      fst (delete_document fname w) = Inr (str ''deleted'', fname) \<and>
      document_store (snd (delete_document fname w)) = (document_store w)(fname := None)) \<and>
   (document_store w fname = None \<longrightarrow>
      delete_document fname w = (Inl (HTTPException 404 (str ''Document not found'')), w)) \<and>
   (\<forall>other. other \<noteq> fname \<longrightarrow>
      document_store (snd (delete_document fname w)) other = document_store w other) \<and>
   index_records (snd (delete_document fname w)) = index_records w \<and>
   conversation_store (snd (delete_document fname w)) = conversation_store w \<and>
   query_analytics (snd (delete_document fname w)) = query_analytics w"
  by (simp add: delete_document_def)

lemma demo_world_document:
  "map_option chunks (document_store demo_world (str ''notes.txt'')) = Some 1"
  by (simp add: demo_eval)

lemma demo_world_no_document: "document_store demo_world (str ''unknown.txt'') = None"
  by (simp add: demo_eval)

theorem delete_document_metadata_only_witness:
  "fst (delete_document (str ''notes.txt'') demo_world) = Inr (str ''deleted'', str ''notes.txt'') \<and>
   document_store (snd (delete_document (str ''notes.txt'') demo_world)) (str ''notes.txt'') = None \<and>
   index_records (snd (delete_document (str ''notes.txt'') demo_world)) =
     [\<lparr>rec_id = str ''id-'', vector = [28],
       rec_meta = [''filename'' \<mapsto> str ''notes.txt'',
                   ''content'' \<mapsto> str ''Hello world. This is a test.'']\<rparr>] \<and>
   delete_document (str ''unknown.txt'') demo_world =
     (Inl (HTTPException 404 (str ''Document not found'')), demo_world)"
proof -
  have known: "document_store demo_world (str ''notes.txt'') \<noteq> None"
    using demo_world_document by auto
  note del = delete_document_metadata_only [of demo_world "str ''notes.txt''"]
  from del known
  have a: "fst (delete_document (str ''notes.txt'') demo_world) = Inr (str ''deleted'', str ''notes.txt'')"
    and b: "document_store (snd (delete_document (str ''notes.txt'') demo_world)) =
      (document_store demo_world)(str ''notes.txt'' := None)"
    by blast+
  from del have c: "index_records (snd (delete_document (str ''notes.txt'') demo_world)) =
      index_records demo_world"
    by blast
  from delete_document_metadata_only [of demo_world "str ''unknown.txt''"] demo_world_no_document
  have d: "delete_document (str ''unknown.txt'') demo_world =
     (Inl (HTTPException 404 (str ''Document not found'')), demo_world)"
    by blast
  from a b c d show ?thesis by (simp add: demo_world_index)
qed

lemma ingest_text_effect:
  assumes "ingest_text e service t m w = (r, w1)"
  shows "document_store w1 = document_store w" "conversation_store w1 = conversation_store w"
    "rag_service w1 = rag_service w" "query_analytics w1 = query_analytics w"
    "uuids_drawn w \<le> uuids_drawn w1"
    "\<not> has_index service \<longrightarrow> index_records w1 = index_records w"
    "has_index service \<longrightarrow> strip t \<noteq> [] \<longrightarrow> (\<exists>x. r = Inr x) \<longrightarrow>
       length (index_records w1) = Suc (length (index_records w))"
  using assms
  by (auto simp: ingest_text_def new_uuid_def Let_def split: if_splits sum.splits option.splits)

lemma ingest_loop_frame:
  assumes "ingest_loop e service fname cs n w = (r, w1)"
  shows "document_store w1 = document_store w \<and> conversation_store w1 = conversation_store w \<and>
    rag_service w1 = rag_service w \<and> query_analytics w1 = query_analytics w \<and>
    uuids_drawn w \<le> uuids_drawn w1 \<and>
    (\<not> has_index service \<longrightarrow> index_records w1 = index_records w)"
  using assms
proof (induction cs arbitrary: n w)
  case Nil
  then show ?case by simp
next
  case (Cons c cs)
  let ?m = "Some [''filename'' \<mapsto> fname, ''content'' \<mapsto> c]"
  obtain r1 v where t: "ingest_text e service c ?m w = (r1, v)"
    by (cases "ingest_text e service c ?m w")
  note eff = ingest_text_effect [OF t]
  show ?case
  proof (cases r1)
    case (Inl msg)
    with t Cons.prems have "w1 = v" by simp
    with eff show ?thesis by simp
  next
    case (Inr x)
    with t Cons.prems have "ingest_loop e service fname cs (n + 1) v = (r, w1)" by simp
    from Cons.IH [OF this] eff show ?thesis by simp
  qed
qed

lemma ingest_loop_count:
  assumes "ingest_loop e service fname cs n w = (Inr count, w1)"
    and "\<forall>c\<in>set cs. strip c \<noteq> []"
  shows "count = n + length cs \<and>
    (has_index service \<longrightarrow> length (index_records w1) = length (index_records w) + length cs)"
  using assms
proof (induction cs arbitrary: n w)
  case Nil
  then show ?case by simp
next
  case (Cons c cs)
  let ?m = "Some [''filename'' \<mapsto> fname, ''content'' \<mapsto> c]"
  obtain r1 v where t: "ingest_text e service c ?m w = (r1, v)"
    by (cases "ingest_text e service c ?m w")
  with Cons.prems(1) obtain x where r1: "r1 = Inr x" by (cases r1) auto
  with t Cons.prems(1) have "ingest_loop e service fname cs (n + 1) v = (Inr count, w1)" by simp
  from Cons.IH [OF this] Cons.prems(2)
  have "count = n + 1 + length cs"
    and "has_index service \<longrightarrow> length (index_records w1) = length (index_records v) + length cs"
    by simp_all
  moreover from ingest_text_effect(7) [OF t] r1 Cons.prems(2)
  have "has_index service \<longrightarrow> length (index_records v) = Suc (length (index_records w))"
    by simp
  ultimately show ?case by simp
qed

lemma ingest_file_frame:
  assumes "ingest_file e fname n t w = (r, w1)"
  shows "conversation_store w1 = conversation_store w" "uuids_drawn w \<le> uuids_drawn w1"
proof -
  obtain g v where g: "get_rag_service e w = (g, v)" by (cases "get_rag_service e w")
  note gf = get_rag_service_frame [OF g]
  have "conversation_store w1 = conversation_store w \<and> uuids_drawn w \<le> uuids_drawn w1"
  proof (cases g)
    case (Inl err)
    with g assms gf show ?thesis by (simp add: ingest_file_def)
  next
    case (Inr service)
    show ?thesis
    proof (cases "strip t = []")
      case True
      with Inr g assms gf show ?thesis by (simp add: ingest_file_def)
    next
      case False
      obtain l u where l: "ingest_loop e service fname (smart_chunk t 500 100) 0 v = (l, u)"
        by (cases "ingest_loop e service fname (smart_chunk t 500 100) 0 v")
      from ingest_loop_frame [OF l] gf
      have "conversation_store u = conversation_store w" "uuids_drawn w \<le> uuids_drawn u"
        by simp_all
      with Inr g assms False l show ?thesis
        by (cases l) (auto simp: ingest_file_def Let_def now_def)
    qed
  qed
  then show "conversation_store w1 = conversation_store w" "uuids_drawn w \<le> uuids_drawn w1"
    by simp_all
qed

lemma ingest_file_counts:
  assumes "ingest_file e fname n t w = (Inr resp, w1)"
  shows "chunks_processed resp = length (smart_chunk t 500 100)"
    and "map_option chunks (document_store w1 fname) = Some (length (smart_chunk t 500 100))"
    and "\<exists>service. rag_service w1 = Some service \<and>
      (if has_index service
       then length (index_records w1) = length (index_records w) + length (smart_chunk t 500 100)
       else index_records w1 = index_records w)"
proof -
  obtain g v where g: "get_rag_service e w = (g, v)" by (cases "get_rag_service e w")
  with assms obtain service where s: "g = Inr service"
    by (cases g) (auto simp: ingest_file_def)
  from assms g s have nb: "strip t \<noteq> []"
    by (auto simp: ingest_file_def split: if_splits)
  obtain l u where l: "ingest_loop e service fname (smart_chunk t 500 100) 0 v = (l, u)"
    by (cases "ingest_loop e service fname (smart_chunk t 500 100) 0 v")
  with assms g s nb obtain count where c: "l = Inr count"
    by (cases l) (auto simp: ingest_file_def)
  have chunks_ok: "\<forall>c\<in>set (smart_chunk t 500 100). strip c \<noteq> []"
    using smart_chunk_members(1) by blast
  from ingest_loop_count [OF l [unfolded c] chunks_ok]
  have count: "count = length (smart_chunk t 500 100)"
    and added: "has_index service \<longrightarrow>
      length (index_records u) = length (index_records v) + length (smart_chunk t 500 100)"
    by simp_all
  from ingest_loop_frame [OF l]
  have frame: "rag_service u = rag_service v"
    "\<not> has_index service \<longrightarrow> index_records u = index_records v"
    by simp_all
  from assms g s nb l c
  have resp: "chunks_processed resp = count"
    and w1: "map_option chunks (document_store w1 fname) = Some count"
      "index_records w1 = index_records u" "rag_service w1 = rag_service u"
    by (auto simp: ingest_file_def Let_def now_def)
  from resp count show "chunks_processed resp = length (smart_chunk t 500 100)" by simp
  from w1 count show "map_option chunks (document_store w1 fname) = Some (length (smart_chunk t 500 100))"
    by simp
  from get_rag_service_keeps [OF g [unfolded s]] frame w1 added get_rag_service_frame(4) [OF g]
  show "\<exists>service. rag_service w1 = Some service \<and>
      (if has_index service
       then length (index_records w1) = length (index_records w) + length (smart_chunk t 500 100)
       else index_records w1 = index_records w)"
    by auto
qed

text \<open>
  Claim C1. The stored chunk count is the number of chunks handed to \<open>ingest_text\<close>
  (\<open>ingest_file_counts\<close>), which is the number of upserts only when the service has its
  index. With the index absent, ingesting a file of one chunk stores the count 1 and
  reports one chunk processed, while nothing has been upserted.
\<close>

theorem ingest_counts_attempts_without_index:
  "fst (ingest_file (demo_env\<lparr>index_ok := False\<rparr>) (str ''notes.txt'') 28
      (str ''Hello world. This is a test.'') (startup (demo_env\<lparr>index_ok := False\<rparr>))) =
     Inr \<lparr>ing_filename = str ''notes.txt'', ing_status = str ''ingested'', chunks_processed = 1,
          ing_size_bytes = 28, ing_preview = str ''Hello world. This is a test.''\<rparr> \<and>
   map_option chunks (document_store (snd (ingest_file (demo_env\<lparr>index_ok := False\<rparr>)
      (str ''notes.txt'') 28 (str ''Hello world. This is a test.'')
      (startup (demo_env\<lparr>index_ok := False\<rparr>)))) (str ''notes.txt'')) = Some 1 \<and>
   index_records (snd (ingest_file (demo_env\<lparr>index_ok := False\<rparr>)
      (str ''notes.txt'') 28 (str ''Hello world. This is a test.'')
      (startup (demo_env\<lparr>index_ok := False\<rparr>)))) = []"
  by (simp add: demo_eval)


section \<open>Properties of the conversations\<close>

lemma summarize_document_frame:
  assumes "summarize_document e fname w = (r, w1)"
  shows "conversation_store w1 = conversation_store w" "uuids_drawn w1 = uuids_drawn w"
proof -
  obtain g v where g: "get_rag_service e w = (g, v)" by (cases "get_rag_service e w")
  from assms g get_rag_service_frame [OF g]
  have "conversation_store w1 = conversation_store w \<and> uuids_drawn w1 = uuids_drawn w"
    by (cases g) (auto simp: summarize_document_def Let_def split_def split: option.splits)
  then show "conversation_store w1 = conversation_store w" "uuids_drawn w1 = uuids_drawn w"
    by simp_all
qed

text \<open>
  What one request does to the conversations: either nothing but removing one or
  changing a title, or the two messages of a chat turn.
\<close>

lemma handle_conversations:
  assumes even: "\<forall>c conv. conversation_store w c = Some conv \<longrightarrow> even (length (messages conv))"
    and minted: "\<forall>c. conversation_store w c \<noteq> None \<longrightarrow> (\<exists>n<uuids_drawn w. c = uuid4 e n)"
  shows "(\<forall>c conv. conversation_store (handle e r w) c = Some conv \<longrightarrow> even (length (messages conv))) \<and>
    (\<forall>c. conversation_store (handle e r w) c \<noteq> None \<longrightarrow> (\<exists>n<uuids_drawn (handle e r w). c = uuid4 e n))"
proof (cases r)
  case (Ingest fname n t)
  obtain x w1 where i: "ingest_file e fname n t w = (x, w1)" by (cases "ingest_file e fname n t w")
  note f = ingest_file_frame [OF i]
  have "\<forall>c. conversation_store w c \<noteq> None \<longrightarrow> (\<exists>n<uuids_drawn w1. c = uuid4 e n)"
    using minted f(2) by (meson less_le_trans)
  with f(1) even Ingest i show ?thesis by simp
next
  case (DeleteDocument fname)
  with even minted show ?thesis by (simp add: delete_document_def)
next
  case (Summarize fname)
  obtain x w1 where i: "summarize_document e fname w = (x, w1)"
    by (cases "summarize_document e fname w")
  from summarize_document_frame [OF i] even minted Summarize i show ?thesis by simp
next
  case (Rename cid new_title)
  with even minted show ?thesis
    by (auto simp: rename_conversation_def split: option.splits if_splits)
next
  case (DeleteConversation cid)
  with even minted show ?thesis
    by (auto simp: delete_conversation_def split: if_splits)
next
  case (Query qd)
  obtain x w' where q: "query_index e qd w = (x, w')" by (cases "query_index e qd w")
  have "(\<forall>c conv. conversation_store w' c = Some conv \<longrightarrow> even (length (messages conv))) \<and>
    (\<forall>c. conversation_store w' c \<noteq> None \<longrightarrow> (\<exists>n<uuids_drawn w'. c = uuid4 e n))"
  proof (cases x)
    case (Inl err)
    from query_index_error [OF q [unfolded Inl]] even minted show ?thesis by simp
  next
    case (Inr resp)
    show ?thesis
    proof (cases "mode qd = str ''chat''")
      case False
      from query_index_not_chat(3,7) [OF q [unfolded Inr] False] even minted show ?thesis by simp
    next
      case True
      from query_index_chat [OF q [unfolded Inr] True]
      obtain service ctx w2 a cid w3 where
        cb: "chat_branch e service qd ctx w2 = (a, cid, w3)"
        and w2: "conversation_store w2 = conversation_store w" "uuids_drawn w2 = uuids_drawn w"
        and w3: "conversation_store w' = conversation_store w3" "uuids_drawn w' = uuids_drawn w3"
        by blast
      note eff = chat_branch_effect(5,6) [OF cb]
      from eff(2) consider
        (known) conv where "conversation_store w2 cid = Some conv" "uuids_drawn w3 = uuids_drawn w2"
          "map_option messages (conversation_store w3 cid) =
             Some (messages conv @ [\<lparr>role = str ''user'', content = query qd\<rparr>,
                                    \<lparr>role = str ''assistant'', content = a\<rparr>])"
      | (fresh) "cid = uuid4 e (uuids_drawn w2)" "uuids_drawn w3 = Suc (uuids_drawn w2)"
          "map_option messages (conversation_store w3 cid) =
             Some [\<lparr>role = str ''user'', content = query qd\<rparr>,
                   \<lparr>role = str ''assistant'', content = a\<rparr>]"
        by blast
      then show ?thesis
      proof cases
        case known
        have "even (length (messages conv))" using even known(1) w2 by simp
        with known(3) have e: "\<forall>conv'. conversation_store w3 cid = Some conv' \<longrightarrow>
            even (length (messages conv'))"
          by auto
        have m: "\<exists>n<uuids_drawn w3. cid = uuid4 e n"
          using minted known(1,2) w2 by simp
        show ?thesis
          unfolding w3
        proof (intro conjI allI impI)
          fix c conv' assume "conversation_store w3 c = Some conv'"
          then show "even (length (messages conv'))"
            using e eff(1) even w2 by (cases "c = cid") auto
        next
          fix c assume "conversation_store w3 c \<noteq> None"
          then show "\<exists>n<uuids_drawn w3. c = uuid4 e n"
            using m eff(1) minted w2 known(2) by (cases "c = cid") auto
        qed
      next
        case fresh
        from fresh(3) have e: "\<forall>conv'. conversation_store w3 cid = Some conv' \<longrightarrow>
            even (length (messages conv'))"
          by auto
        have m: "\<exists>n<uuids_drawn w3. cid = uuid4 e n"
          using fresh(1,2) by auto
        show ?thesis
          unfolding w3
        proof (intro conjI allI impI)
          fix c conv' assume "conversation_store w3 c = Some conv'"
          then show "even (length (messages conv'))"
            using e eff(1) even w2 by (cases "c = cid") auto
        next
          fix c assume c: "conversation_store w3 c \<noteq> None"
          show "\<exists>n<uuids_drawn w3. c = uuid4 e n"
          proof (cases "c = cid")
            case True
            with m show ?thesis by simp
          next
            case False
            with c eff(1) w2 have "conversation_store w c \<noteq> None" by simp
            with minted obtain n where "n < uuids_drawn w" "c = uuid4 e n" by blast
            with fresh(2) w2 show ?thesis by (auto intro: less_SucI)
          qed
        qed
      qed
    qed
  qed
  with Query q show ?thesis by simp
qed

lemma reachable_conversations:
  assumes "reachable e w"
  shows "(\<forall>c conv. conversation_store w c = Some conv \<longrightarrow> even (length (messages conv))) \<and>
    (\<forall>c. conversation_store w c \<noteq> None \<longrightarrow> (\<exists>n<uuids_drawn w. c = uuid4 e n))"
  using assms
proof (induction rule: reachable.induct)
  case start
  show ?case by (simp add: startup_def)
next
  case (step w r)
  then show ?case using handle_conversations [of w e r] by blast
qed


text \<open>
  Claim C7. In every state the service can reach, a \<open>/query\<close> call in mode \<open>chat\<close> that
  returns a response appends exactly two messages to one conversation, the user's query
  and then the assistant's answer, and leaves every other conversation as it was; every
  conversation has an even number of messages afterwards (as in every reachable state).
  When a conversation is found under the supplied identifier, that one is extended and
  its identifier returned. When no identifier was supplied, or none is found under it,
  the returned identifier is the next one drawn from \<open>uuid4\<close> and its conversation holds
  exactly the two messages; when \<open>uuid4\<close> never repeats, that identifier is the name of
  no conversation of the store and was never drawn before.
\<close>

theorem chat_appends_pair:
  assumes "reachable e w"
    and "query_index e qd w = (Inr resp, w')" and "mode qd = str ''chat''"
  shows "\<exists>cid a.
    response_conversation_id resp = Some cid \<and> answer resp = Some a \<and>
    map_option messages (conversation_store w' cid) =
      Some ((case (case conversation_id qd of None \<Rightarrow> None | Some c \<Rightarrow> conversation_store w c) of
               None \<Rightarrow> [] | Some conv \<Rightarrow> messages conv) @
            [\<lparr>role = str ''user'', content = query qd\<rparr>,
             \<lparr>role = str ''assistant'', content = a\<rparr>]) \<and>
    (\<forall>c. c \<noteq> cid \<longrightarrow> conversation_store w' c = conversation_store w c) \<and>
    ((case conversation_id qd of None \<Rightarrow> None | Some c \<Rightarrow> conversation_store w c) \<noteq> None \<longrightarrow>
       conversation_id qd = Some cid) \<and>
    ((case conversation_id qd of None \<Rightarrow> None | Some c \<Rightarrow> conversation_store w c) = None \<longrightarrow>
       cid = uuid4 e (uuids_drawn w) \<and>
       (inj (uuid4 e) \<longrightarrow>
          conversation_store w cid = None \<and> (\<forall>n<uuids_drawn w. uuid4 e n \<noteq> cid))) \<and>
    (\<forall>c conv. conversation_store w' c = Some conv \<longrightarrow> even (length (messages conv)))"
proof -
  let ?found = "case conversation_id qd of None \<Rightarrow> None | Some c \<Rightarrow> conversation_store w c"
  let ?pair = "\<lambda>a. [\<lparr>role = str ''user'', content = query qd\<rparr>,
                     \<lparr>role = str ''assistant'', content = a\<rparr>]"
  note inv = reachable_conversations [OF assms(1)]
  from query_index_chat [OF assms(2,3)]
  obtain service ctx w2 a cid w3 where
    cb: "chat_branch e service qd ctx w2 = (a, cid, w3)"
    and w2: "conversation_store w2 = conversation_store w" "uuids_drawn w2 = uuids_drawn w"
    and resp: "answer resp = Some a" "response_conversation_id resp = Some cid"
    and w3: "conversation_store w' = conversation_store w3"
    by blast
  note eff = chat_branch_effect(5,6) [OF cb]
  have "reachable e (handle e (Query qd) w)" using assms(1) by (rule reachable.step)
  then have "reachable e w'" using assms(2) by simp
  then have even': "\<forall>c conv. conversation_store w' c = Some conv \<longrightarrow> even (length (messages conv))"
    using reachable_conversations by blast
  have others: "\<forall>c. c \<noteq> cid \<longrightarrow> conversation_store w' c = conversation_store w c"
    using eff(1) w2 w3 by simp
  from eff(2) [unfolded w2 w3 [symmetric]] consider
    (known) conv where "conversation_id qd = Some cid" "conversation_store w cid = Some conv"
      "map_option messages (conversation_store w' cid) = Some (messages conv @ ?pair a)"
  | (fresh) "?found = None" "cid = uuid4 e (uuids_drawn w)"
      "map_option messages (conversation_store w' cid) = Some (?pair a)"
    by (elim disjE exE conjE) simp_all
  then show ?thesis
  proof cases
    case known
    then have "?found = Some conv" by simp
    with known resp others even' show ?thesis by simp
  next
    case fresh
    have "conversation_store w cid = None \<and> (\<forall>n<uuids_drawn w. uuid4 e n \<noteq> cid)"
      if inj: "inj (uuid4 e)"
    proof -
      have unseen: "\<forall>n<uuids_drawn w. uuid4 e n \<noteq> cid"
        using fresh(2) inj by (auto dest: injD)
      have "conversation_store w cid = None"
      proof (rule ccontr)
        assume "conversation_store w cid \<noteq> None"
        with inv obtain n where "n < uuids_drawn w" "cid = uuid4 e n" by blast
        with unseen show False by blast
      qed
      with unseen show ?thesis by simp
    qed
    with fresh resp others even' show ?thesis by simp
  qed
qed

lemma demo_world_reachable: "reachable demo_env demo_world"
proof -
  have "reachable demo_env (handle demo_env
      (Ingest (str ''notes.txt'') 28 (str ''Hello world. This is a test.'')) (startup demo_env))"
    by (intro reachable.step reachable.start)
  then show ?thesis by (simp add: demo_world_def)
qed

lemma demo_uuid4_inj: "inj (uuid4 demo_env)"
  by (simp add: inj_def demo_env_def replicate_eq_replicate)

lemma generate_answer_first_response:
  assumes "has_gemini service" and "GEMINI_MODEL_CHAIN service = m # ms"
  shows "generate_answer service (\<lambda>h m p. Response t) q ctx hist calls = (t, calls @ [m])"
  using assms by (simp add: generate_answer_def call_gemini_def numeral_2_eq_2 Let_def)

lemmas chat_eval =
  chat_branch_def generate_answer_first_response generate_title_from_query_def slice_from_def

theorem chat_appends_pair_witness:
  "fst (query_index demo_env
          \<lparr>query = str ''what is X'', top_k = 5, mode = str ''chat'', conversation_id = None\<rparr>
          demo_world) =
     Inr \<lparr>results = [\<lparr>r_id = Some (str ''id-''), score = Some 1,
                       r_content = str ''Hello world. This is a test.'',
                       r_filename = str ''notes.txt''\<rparr>],
          answer = Some (str ''An answer.''),
          response_conversation_id = Some (str ''id-1'')\<rparr> \<and>
   map_option messages (conversation_store (snd (query_index demo_env
          \<lparr>query = str ''what is X'', top_k = 5, mode = str ''chat'', conversation_id = None\<rparr>
          demo_world)) (str ''id-1'')) =
     Some [\<lparr>role = str ''user'', content = str ''what is X''\<rparr>,
           \<lparr>role = str ''assistant'', content = str ''An answer.''\<rparr>] \<and>
   conversation_store demo_world (str ''id-1'') = None"
proof -
  let ?qd = "\<lparr>query = str ''what is X'', top_k = 5, mode = str ''chat'', conversation_id = None\<rparr>"
  let ?resp = "\<lparr>results = [\<lparr>r_id = Some (str ''id-''), score = Some (1::real),
                       r_content = str ''Hello world. This is a test.'',
                       r_filename = str ''notes.txt''\<rparr>],
          answer = Some (str ''An answer.''),
          response_conversation_id = Some (str ''id-1'')\<rparr>"
  let ?w' = "snd (query_index demo_env ?qd demo_world)"
  have run: "fst (query_index demo_env ?qd demo_world) = Inr ?resp"
    by (simp add: demo_eval chat_eval)
  then have full: "query_index demo_env ?qd demo_world = (Inr ?resp, ?w')"
    by (metis prod.collapse)
  have m: "mode ?qd = str ''chat''" by simp
  from chat_appends_pair [OF demo_world_reachable full m]
  have "map_option messages (conversation_store ?w' (str ''id-1'')) =
     Some [\<lparr>role = str ''user'', content = str ''what is X''\<rparr>,
           \<lparr>role = str ''assistant'', content = str ''An answer.''\<rparr>] \<and>
     conversation_store demo_world (str ''id-1'') = None"
    by (elim exE conjE) (simp add: demo_uuid4_inj)
  with run show ?thesis by (intro conjI) simp_all
qed

end
